theory Spec2Isabelle
  imports Main
begin

section \<open>The draw-logic (nonogram) solver: constraint terms\<close>

text \<open>
  The program \<^verbatim>\<open>draw_logic_solver.py\<close> builds terms of the external solver and asserts
  them. The terms it builds are modelled as two datatypes: integer terms (Python integers
  lifted to constants, integer variables made by \<^verbatim>\<open>z3.Int(name)\<close>, sums and products) and
  boolean terms (a read \<^verbatim>\<open>self._field[e]\<close> of the one boolean array, negation, disjunction,
  the three comparisons the source uses, and a universal quantifier over one named integer).
\<close>

datatype z3int =
    IntVal int
  | IntVar string
  | Add z3int z3int
  | Mul z3int z3int

datatype z3bool =
    Select z3int
  | Not z3bool
  | Or "z3bool list"
  | Ge z3int z3int
  | Lt z3int z3int
  | Le z3int z3int
  | ForAll string z3bool

text \<open>
  A model of the solver interprets the array \<^verbatim>\<open>f\<close> and every integer constant. Integer
  constants are identified by their name: two calls of \<^verbatim>\<open>z3.Int\<close> with one name give one
  variable.
\<close>

record z3model =
  field_val :: "int \<Rightarrow> bool"
  int_val :: "string \<Rightarrow> int"

fun ieval :: "(string \<Rightarrow> int) \<Rightarrow> z3int \<Rightarrow> int" where
  "ieval env (IntVal n) = n"
| "ieval env (IntVar x) = env x"
| "ieval env (Add a b) = ieval env a + ieval env b"
| "ieval env (Mul a b) = ieval env a * ieval env b"

fun beval :: "(int \<Rightarrow> bool) \<Rightarrow> (string \<Rightarrow> int) \<Rightarrow> z3bool \<Rightarrow> bool" where
  "beval f env (Select e) = f (ieval env e)"
| "beval f env (Not b) = (\<not> beval f env b)"
| "beval f env (Or bs) = list_ex (beval f env) bs"
| "beval f env (Ge a b) = (ieval env a \<ge> ieval env b)"
| "beval f env (Lt a b) = (ieval env a < ieval env b)"
| "beval f env (Le a b) = (ieval env a \<le> ieval env b)"
| "beval f env (ForAll x b) = (\<forall>n. beval f (env(x := n)) b)"

definition satisfies :: "z3model \<Rightarrow> z3bool list \<Rightarrow> bool" where
  "satisfies m cs = list_all (beval (field_val m) (int_val m)) cs"

text \<open>The integer variables that occur free in a term.\<close>

fun ivars :: "z3int \<Rightarrow> string set" where
  "ivars (IntVal n) = {}"
| "ivars (IntVar x) = {x}"
| "ivars (Add a b) = ivars a \<union> ivars b"
| "ivars (Mul a b) = ivars a \<union> ivars b"

fun bvars :: "z3bool \<Rightarrow> string set" where
  "bvars (Select e) = ivars e"
| "bvars (Not b) = bvars b"
| "bvars (Or bs) = \<Union> (set (map bvars bs))"
| "bvars (Ge a b) = ivars a \<union> ivars b"
| "bvars (Lt a b) = ivars a \<union> ivars b"
| "bvars (Le a b) = ivars a \<union> ivars b"
| "bvars (ForAll x b) = bvars b - {x}"

section \<open>Formatting of variable names\<close>

text \<open>Python's \<^verbatim>\<open>'%d' % i\<close> for a natural number: its decimal digits.\<close>

definition digit :: "nat \<Rightarrow> char" where
  "digit d = ''0123456789'' ! d"

function str_nat :: "nat \<Rightarrow> string" where
  "str_nat n = (if n < 10 then [digit n] else str_nat (n div 10) @ [digit (n mod 10)])"
  by pat_completeness auto
termination
  by (relation "measure (\<lambda>n. n)") auto

declare str_nat.simps [simp del]

section \<open>The encoder of one line\<close>

text \<open>
  \<^verbatim>\<open>_add_column(numbers, skip, base, size, prefix)\<close> adds assertions to the solver of the
  object. The store of the solver is a list of assertions, passed in and returned. The
  method is only called by \<^verbatim>\<open>_solve\<close>, with natural numbers for \<^verbatim>\<open>skip\<close>, \<^verbatim>\<open>base\<close> and
  \<^verbatim>\<open>size\<close>; the hint numbers are Python integers. \<^verbatim>\<open>xrange(c)\<close> is empty for \<open>c \<le> 0\<close>.
\<close>

definition cell :: "nat \<Rightarrow> nat \<Rightarrow> z3int \<Rightarrow> z3bool" where
  \<comment> \<open>\<^verbatim>\<open>self._field[base + skip * fa]\<close> for a solver integer \<open>fa\<close>\<close>
  "cell skip base fa = Select (Add (IntVal (int base)) (Mul (IntVal (int skip)) fa))"

definition column_vars :: "string \<Rightarrow> nat \<Rightarrow> z3int list" where
  \<comment> \<open>\<^verbatim>\<open>v = [z3.Int('%s%d' % (prefix, i)) for i in range(len(numbers))]\<close>\<close>
  "column_vars prefix n = map (\<lambda>i. IntVar (prefix @ str_nat i)) [0..<n]"

definition column_assertions ::
  "int list \<Rightarrow> nat \<Rightarrow> nat \<Rightarrow> nat \<Rightarrow> string \<Rightarrow> z3bool list" where
  "column_assertions numbers skip base sz prefix =
    (if numbers = [] then
       map (\<lambda>i. Not (Select (IntVal (int base + int skip * int i)))) [0..<sz]
     else
       let v = column_vars prefix (length numbers) in
         [Ge (v ! 0) (IntVal 0)]
         @ map (\<lambda>i. Lt (Add (v ! i) (IntVal (numbers ! i))) (v ! (i + 1)))
             [0..<length numbers - 1]
         @ [Le (Add (last v) (IntVal (last numbers))) (IntVal (int sz))]
         @ concat (map (\<lambda>(s, c).
               map (\<lambda>i. Select (Add (IntVal (int base))
                                   (Mul (Add s (IntVal (int i))) (IntVal (int skip)))))
                 [0..<nat c])
             (zip v numbers))
         @ [ForAll (prefix @ ''__1'')
              (Or [Lt (IntVar (prefix @ ''__1'')) (IntVal 0),
                   Le (v ! 0) (IntVar (prefix @ ''__1'')),
                   Not (cell skip base (IntVar (prefix @ ''__1'')))])]
         @ map (\<lambda>i. ForAll (prefix @ ''_'' @ str_nat i)
              (Or [Lt (IntVar (prefix @ ''_'' @ str_nat i)) (Add (v ! i) (IntVal (numbers ! i))),
                   Le (v ! (i + 1)) (IntVar (prefix @ ''_'' @ str_nat i)),
                   Not (cell skip base (IntVar (prefix @ ''_'' @ str_nat i)))]))
             [0..<length numbers - 1]
         @ [ForAll (prefix @ ''_'' @ str_nat (length numbers))
              (Or [Lt (IntVar (prefix @ ''_'' @ str_nat (length numbers)))
                      (Add (last v) (IntVal (last numbers))),
                   Ge (IntVar (prefix @ ''_'' @ str_nat (length numbers))) (IntVal (int sz)),
                   Not (cell skip base (IntVar (prefix @ ''_'' @ str_nat (length numbers))))])])"

definition add_column ::
  "int list \<Rightarrow> nat \<Rightarrow> nat \<Rightarrow> nat \<Rightarrow> string \<Rightarrow> z3bool list \<Rightarrow> z3bool list" where
  "add_column numbers skip base sz prefix store =
     store @ column_assertions numbers skip base sz prefix"

text \<open>
  The cells of the line that \<^verbatim>\<open>skip\<close>, \<^verbatim>\<open>base\<close> and \<^verbatim>\<open>size\<close> name, read in a model:
  position \<open>k\<close> of the line is the array index \<open>base + skip * k\<close>.
\<close>

definition line_cells :: "z3model \<Rightarrow> nat \<Rightarrow> nat \<Rightarrow> nat \<Rightarrow> bool list" where
  "line_cells m skip base sz =
     map (\<lambda>k. field_val m (int base + int skip * int k)) [0..<sz]"

section \<open>Solving and printing\<close>

datatype check_result = Sat z3model | Unsat | Unknown

type_synonym solver = "z3bool list \<Rightarrow> check_result"

datatype py_error = IndexError

record DrawLogic =
  horizontal_hints :: "int list list"
  vertical_hints :: "int list list"
  solved :: bool
  answer :: "bool list list option"

definition init_DrawLogic :: "int list list \<Rightarrow> int list list \<Rightarrow> DrawLogic" where
  "init_DrawLogic horizontal vertical =
     \<lparr>horizontal_hints = horizontal, vertical_hints = vertical,
      solved = False, answer = None\<rparr>"

text \<open>The two loops of \<^verbatim>\<open>_solve\<close> over \<^verbatim>\<open>enumerate(...)\<close>, threading the store.\<close>

fun add_rows :: "nat \<Rightarrow> nat \<Rightarrow> int list list \<Rightarrow> z3bool list \<Rightarrow> z3bool list" where
  "add_rows width i [] store = store"
| "add_rows width i (c # cs) store =
     add_rows width (Suc i) cs (add_column c 1 (i * width) width (''h'' @ str_nat i) store)"

fun add_cols :: "nat \<Rightarrow> nat \<Rightarrow> nat \<Rightarrow> int list list \<Rightarrow> z3bool list \<Rightarrow> z3bool list" where
  "add_cols width height i [] store = store"
| "add_cols width height i (c # cs) store =
     add_cols width height (Suc i) cs (add_column c width i height (''v'' @ str_nat i) store)"

definition encode :: "int list list \<Rightarrow> int list list \<Rightarrow> z3bool list" where
  "encode horizontal vertical =
     (let width = length vertical; height = length horizontal in
        add_cols width height 0 vertical (add_rows width 0 horizontal []))"

text \<open>
  The grid read from the model: \<^verbatim>\<open>f0[i][j]\<close> is the value of the array at index
  \<^verbatim>\<open>j * width + i\<close>, for \<^verbatim>\<open>width\<close> lists of \<^verbatim>\<open>height\<close> cells each.
\<close>

definition extract_grid :: "z3model \<Rightarrow> nat \<Rightarrow> nat \<Rightarrow> bool list list" where
  "extract_grid m width height =
     map (\<lambda>i. map (\<lambda>j. field_val m (int (j * width + i))) [0..<height]) [0..<width]"

definition solve_private :: "solver \<Rightarrow> DrawLogic \<Rightarrow> bool list list option" where
  "solve_private slv d =
     (let width = length (vertical_hints d); height = length (horizontal_hints d) in
        case slv (encode (horizontal_hints d) (vertical_hints d)) of
          Sat m \<Rightarrow> Some (extract_grid m width height)
        | Unsat \<Rightarrow> None
        | Unknown \<Rightarrow> None)"

text \<open>
  \<^verbatim>\<open>solve\<close> changes the object; the second component of the state counts the calls of
  \<^verbatim>\<open>_solve\<close>, each of which submits the store to the solver once.
\<close>

definition solve :: "solver \<Rightarrow> DrawLogic \<times> nat \<Rightarrow> bool list list option \<times> (DrawLogic \<times> nat)" where
  "solve slv w =
     (case w of (d, calls) \<Rightarrow>
        if \<not> solved d then
          (let a = solve_private slv (d\<lparr>solved := True\<rparr>)
           in (a, (d\<lparr>solved := True, answer := a\<rparr>, Suc calls)))
        else (answer d, (d, calls)))"

fun solve_times :: "solver \<Rightarrow> nat \<Rightarrow> DrawLogic \<times> nat
    \<Rightarrow> bool list list option list \<times> (DrawLogic \<times> nat)" where
  "solve_times slv 0 w = ([], w)"
| "solve_times slv (Suc n) w =
     (case solve slv w of (a, w') \<Rightarrow>
        (case solve_times slv n w' of (as, w'') \<Rightarrow> (a # as, w'')))"

fun write_row :: "bool list list \<Rightarrow> nat \<Rightarrow> nat list \<Rightarrow> py_error + string" where
  "write_row q j [] = Inr [CHR 0x0A]"
| "write_row q j (i # is) =
     (if j < length (q ! i) then
        (case write_row q j is of
           Inl e \<Rightarrow> Inl e
         | Inr s \<Rightarrow> Inr ((if q ! i ! j then CHR ''x'' else CHR ''_'') # s))
      else Inl IndexError)"

fun write_rows :: "bool list list \<Rightarrow> nat list \<Rightarrow> py_error + string" where
  "write_rows q [] = Inr []"
| "write_rows q (j # js) =
     (case write_row q j [0..<length q] of
        Inl e \<Rightarrow> Inl e
      | Inr s \<Rightarrow> (case write_rows q js of Inl e \<Rightarrow> Inl e | Inr t \<Rightarrow> Inr (s @ t)))"

definition write_answer :: "bool list list option \<Rightarrow> py_error + string" where
  "write_answer a =
     (case a of
        None \<Rightarrow> Inr (''No solutions!'' @ [CHR 0x0A])
      | Some q \<Rightarrow>
          (case q of
             [] \<Rightarrow> Inl IndexError
           | q0 # _ \<Rightarrow> write_rows q [0..<length q0]))"

definition print_answer :: "solver \<Rightarrow> DrawLogic \<times> nat \<Rightarrow> (py_error + string) \<times> (DrawLogic \<times> nat)" where
  "print_answer slv w = (case solve slv w of (q, w') \<Rightarrow> (write_answer q, w'))"

section \<open>Lines, runs and placements\<close>

text \<open>
  The hints a line of cells has: the lengths of its maximal runs of filled cells, in order.
  \<open>runs_acc n xs\<close> has already counted \<open>n\<close> filled cells of the run it is in.
\<close>

fun runs_acc :: "nat \<Rightarrow> bool list \<Rightarrow> nat list" where
  "runs_acc n [] = (if n = 0 then [] else [n])"
| "runs_acc n (True # xs) = runs_acc (Suc n) xs"
| "runs_acc n (False # xs) = (if n = 0 then [] else [n]) @ runs_acc 0 xs"

definition line_hints :: "bool list \<Rightarrow> nat list" where
  "line_hints xs = runs_acc 0 xs"

text \<open>
  The line, from position \<open>a\<close> up to \<open>sz\<close>, that has a run of \<open>h\<close> filled cells at each
  offset \<open>off\<close> of the list and is empty everywhere else.
\<close>

fun render :: "nat \<Rightarrow> (nat \<times> nat) list \<Rightarrow> nat \<Rightarrow> bool list" where
  "render a [] sz = replicate (sz - a) False"
| "render a ((off, h) # ps) sz =
     replicate (off - a) False @ replicate h True @ render (off + h) ps sz"

text \<open>
  Runs that lie in order between \<open>a\<close> and \<open>sz\<close>, each of positive length, with at least one
  cell between two of them.
\<close>

fun spaced :: "nat \<Rightarrow> (nat \<times> nat) list \<Rightarrow> nat \<Rightarrow> bool" where
  "spaced a [] sz = (a \<le> sz)"
| "spaced a ((off, h) # ps) sz =
     (a \<le> off \<and> 0 < h \<and> (if ps = [] then off + h \<le> sz else spaced (Suc (off + h)) ps sz))"

text \<open>
  What the assertions of a non-empty hint line say about a model, with \<open>off i\<close> the value
  of the \<open>i\<close>-th position variable and \<open>f\<close> the array: one conjunct for each group of
  assertions the source adds, in its order.
\<close>

definition placement ::
  "(int \<Rightarrow> bool) \<Rightarrow> (nat \<Rightarrow> int) \<Rightarrow> int list \<Rightarrow> nat \<Rightarrow> nat \<Rightarrow> nat \<Rightarrow> bool" where
  "placement f off numbers skip base sz =
     (0 \<le> off 0
      \<and> (\<forall>i < length numbers - 1. off i + numbers ! i < off (i + 1))
      \<and> off (length numbers - 1) + last numbers \<le> int sz
      \<and> (\<forall>i < length numbers. \<forall>k < nat (numbers ! i).
            f (int base + (off i + int k) * int skip))
      \<and> (\<forall>x. x < 0 \<or> off 0 \<le> x \<or> \<not> f (int base + int skip * x))
      \<and> (\<forall>i < length numbers - 1. \<forall>x.
            x < off i + numbers ! i \<or> off (i + 1) \<le> x \<or> \<not> f (int base + int skip * x))
      \<and> (\<forall>x. x < off (length numbers - 1) + last numbers \<or> int sz \<le> x
            \<or> \<not> f (int base + int skip * x)))"

text \<open>The values a model gives to the position variables of a line.\<close>

definition offsets :: "z3model \<Rightarrow> string \<Rightarrow> nat \<Rightarrow> int list" where
  "offsets m prefix n = map (\<lambda>i. int_val m (prefix @ str_nat i)) [0..<n]"

text \<open>
  The solver is a collaborator outside the program. It is sound on a store when a model it
  returns satisfies the store, and it decides a store when moreover it answers
  \<^verbatim>\<open>unsat\<close> only for a store without model and never \<^verbatim>\<open>unknown\<close>.
\<close>

definition sound_on :: "solver \<Rightarrow> z3bool list \<Rightarrow> bool" where
  "sound_on slv cs = (case slv cs of Sat m \<Rightarrow> satisfies m cs | Unsat \<Rightarrow> True | Unknown \<Rightarrow> True)"

definition decided_on :: "solver \<Rightarrow> z3bool list \<Rightarrow> bool" where
  "decided_on slv cs =
     (case slv cs of
        Sat m \<Rightarrow> satisfies m cs
      | Unsat \<Rightarrow> \<not> (\<exists>m. satisfies m cs)
      | Unknown \<Rightarrow> False)"

text \<open>
  A model for the example of the usage documentation: the cells of the printed answer and
  the offsets of its runs.
\<close>

definition usage_model :: z3model where
  "usage_model =
     \<lparr>field_val = (\<lambda>k. k \<in> {1, 2, 3, 5, 9, 11, 12, 13}),
      int_val = (\<lambda>s. if s \<in> {''h00'', ''h20'', ''v00'', ''v40''} then 1
                      else if s = ''h11'' then 4
                      else if s \<in> {''v11'', ''v21'', ''v31''} then 2
                      else 0)\<rparr>"

text \<open>
  The hints derived from a grid. A grid is a list of columns, as \<^verbatim>\<open>_solve\<close> returns it:
  \<open>g ! i ! j\<close> is the cell in column \<open>i\<close> and row \<open>j\<close>.
\<close>

definition col_hints :: "bool list list \<Rightarrow> int list list" where
  "col_hints g = map (\<lambda>col. map int (line_hints col)) g"

definition row_hints :: "nat \<Rightarrow> bool list list \<Rightarrow> int list list" where
  "row_hints height g = map (\<lambda>j. map int (line_hints (map (\<lambda>col. col ! j) g))) [0..<height]"

definition rect :: "nat \<Rightarrow> nat \<Rightarrow> bool list list \<Rightarrow> bool" where
  "rect width height g = (length g = width \<and> list_all (\<lambda>col. length col = height) g)"

text \<open>
  A grid of 21 columns and 12 rows: row 1 has a filled cell in every even column (eleven
  runs), row 11 has filled cells in columns 0 and 2, every other cell is empty.
\<close>

definition clash_grid :: "bool list list" where
  "clash_grid =
     map (\<lambda>i. map (\<lambda>j. (j = 1 \<and> even i) \<or> (j = 11 \<and> (i = 0 \<or> i = 2))) [0..<12]) [0..<21]"

section \<open>Variable names\<close>

lemma digit_neq_underscore: "d < 10 \<Longrightarrow> digit d \<noteq> CHR ''_''"
proof -
  assume "d < 10"
  then have "d \<in> {0,1,2,3,4,5,6,7,8,9}" by auto
  then show ?thesis by (auto simp: digit_def)
qed

lemma underscore_notin_str_nat: "CHR ''_'' \<notin> set (str_nat n)"
proof (induction n rule: str_nat.induct)
  case (1 n)
  show ?case
  proof (cases "n < 10")
    case True
    then show ?thesis using digit_neq_underscore [of n] by (simp add: str_nat.simps)
  next
    case False
    then show ?thesis using 1 digit_neq_underscore [of "n mod 10"]
      by (subst str_nat.simps) auto
  qed
qed

lemma str_nat_neq_bound1: "str_nat i \<noteq> ''__1''"
  using underscore_notin_str_nat [of i] by auto

lemma str_nat_neq_bound2: "str_nat i \<noteq> CHR ''_'' # s"
  using underscore_notin_str_nat [of i] by auto

lemma column_vars_nth: "i < n \<Longrightarrow> column_vars prefix n ! i = IntVar (prefix @ str_nat i)"
  by (simp add: column_vars_def)

lemma column_vars_last: "0 < n \<Longrightarrow> last (column_vars prefix n) = IntVar (prefix @ str_nat (n - 1))"
  by (simp add: column_vars_def last_conv_nth)

lemma length_column_vars [simp]: "length (column_vars prefix n) = n"
  by (simp add: column_vars_def)

lemma list_all_map_upt: "list_all P (map g [0..<k]) = (\<forall>i<k. P (g i))"
  by (auto simp: list_all_iff)

lemma sat_order:
  "list_all (beval f env)
     (map (\<lambda>i. Lt (Add (column_vars prefix n ! i) (IntVal (numbers ! i)))
                  (column_vars prefix n ! (i + 1))) [0..<n - 1])
   = (\<forall>i < n - 1. env (prefix @ str_nat i) + numbers ! i < env (prefix @ str_nat (i + 1)))"
  by (simp add: list_all_map_upt column_vars_nth)

lemma sat_filled:
  assumes "length numbers = n"
  shows "list_all (beval f env)
     (concat (map (\<lambda>(s, c).
         map (\<lambda>i. Select (Add (IntVal (int base))
                             (Mul (Add s (IntVal (int i))) (IntVal (int skip)))))
           [0..<nat c])
       (zip (column_vars prefix n) numbers)))
   = (\<forall>i < n. \<forall>k < nat (numbers ! i).
        f (int base + (env (prefix @ str_nat i) + int k) * int skip))"
proof -
  have "list_all (beval f env)
     (concat (map (\<lambda>(s, c).
         map (\<lambda>i. Select (Add (IntVal (int base))
                             (Mul (Add s (IntVal (int i))) (IntVal (int skip)))))
           [0..<nat c])
       (zip (column_vars prefix n) numbers)))
    = (\<forall>i < n. list_all (beval f env)
         (map (\<lambda>k. Select (Add (IntVal (int base))
                             (Mul (Add (column_vars prefix n ! i) (IntVal (int k))) (IntVal (int skip)))))
           [0..<nat (numbers ! i)]))"
    using assms by (fastforce simp: list_all_iff set_zip)
  also have "\<dots> = (\<forall>i < n. \<forall>k < nat (numbers ! i).
        f (int base + (env (prefix @ str_nat i) + int k) * int skip))"
    by (simp add: list_all_map_upt column_vars_nth)
  finally show ?thesis .
qed

lemma sat_before:
  assumes "0 < n"
  shows "beval f env (ForAll (prefix @ ''__1'')
              (Or [Lt (IntVar (prefix @ ''__1'')) (IntVal 0),
                   Le (column_vars prefix n ! 0) (IntVar (prefix @ ''__1'')),
                   Not (cell skip base (IntVar (prefix @ ''__1'')))]))
   = (\<forall>x. x < 0 \<or> env (prefix @ str_nat 0) \<le> x \<or> \<not> f (int base + int skip * x))"
  using assms by (simp add: column_vars_nth cell_def str_nat_neq_bound1)

lemma sat_between:
  "list_all (beval f env)
     (map (\<lambda>i. ForAll (prefix @ ''_'' @ str_nat i)
              (Or [Lt (IntVar (prefix @ ''_'' @ str_nat i))
                      (Add (column_vars prefix n ! i) (IntVal (numbers ! i))),
                   Le (column_vars prefix n ! (i + 1)) (IntVar (prefix @ ''_'' @ str_nat i)),
                   Not (cell skip base (IntVar (prefix @ ''_'' @ str_nat i)))]))
        [0..<n - 1])
   = (\<forall>i < n - 1. \<forall>x. x < env (prefix @ str_nat i) + numbers ! i
         \<or> env (prefix @ str_nat (i + 1)) \<le> x \<or> \<not> f (int base + int skip * x))"
  by (simp add: list_all_map_upt column_vars_nth cell_def str_nat_neq_bound2)

lemma sat_after:
  assumes "0 < n"
  shows "beval f env (ForAll (prefix @ ''_'' @ str_nat n)
              (Or [Lt (IntVar (prefix @ ''_'' @ str_nat n))
                      (Add (last (column_vars prefix n)) (IntVal h)),
                   Ge (IntVar (prefix @ ''_'' @ str_nat n)) (IntVal (int sz)),
                   Not (cell skip base (IntVar (prefix @ ''_'' @ str_nat n)))]))
   = (\<forall>x. x < env (prefix @ str_nat (n - 1)) + h \<or> int sz \<le> x
          \<or> \<not> f (int base + int skip * x))"
  using assms by (simp add: column_vars_last cell_def str_nat_neq_bound2)

lemma satisfies_column_assertions:
  assumes "numbers \<noteq> []"
  shows "satisfies m (column_assertions numbers skip base sz prefix)
     = placement (field_val m) (\<lambda>i. int_val m (prefix @ str_nat i)) numbers skip base sz"
proof -
  have n: "0 < length numbers" using assms by simp
  show ?thesis
    unfolding satisfies_def column_assertions_def placement_def Let_def
    using assms n
    by (simp only: if_False list_all_append list.pred_inject sat_order sat_filled [OF refl]
        sat_before [OF n] sat_between sat_after [OF n])
      (simp add: column_vars_nth column_vars_last)
qed

section \<open>Runs of a rendered line\<close>

lemma runs_acc_False: "runs_acc 0 (replicate k False @ xs) = runs_acc 0 xs"
  by (induction k) simp_all

lemma runs_acc_True: "runs_acc n (replicate k True @ xs) = runs_acc (n + k) xs"
  by (induction k arbitrary: n) simp_all

lemma runs_acc_only_False: "0 < n \<Longrightarrow> runs_acc n (replicate k False) = [n]"
  using runs_acc_False [of k "[]"] by (cases k) simp_all

lemma render_gap:
  "Suc b \<le> fst p \<Longrightarrow> render b (p # ps) sz = False # render (Suc b) (p # ps) sz"
  by (cases p) (simp add: Suc_diff_le flip: replicate_Suc)

lemma runs_render: "spaced a ps sz \<Longrightarrow> ps \<noteq> [] \<Longrightarrow> runs_acc 0 (render a ps sz) = map snd ps"
proof (induction ps arbitrary: a)
  case Nil
  then show ?case by simp
next
  case (Cons p ps)
  obtain off h where p: "p = (off, h)" by (cases p)
  show ?case
  proof (cases "ps = []")
    case True
    with Cons.prems p show ?thesis
      by (simp add: runs_acc_False runs_acc_True runs_acc_only_False)
  next
    case False
    then obtain q qs where ps: "ps = q # qs" by (cases ps) auto
    from Cons.prems p False have sp: "spaced (Suc (off + h)) ps sz" and h: "0 < h" by simp_all
    from sp ps have "Suc (off + h) \<le> fst q" by (cases q) simp
    then have r: "render (off + h) ps sz = False # render (Suc (off + h)) ps sz"
      unfolding ps by (rule render_gap)
    from Cons.IH [OF sp False] h show ?thesis
      by (simp add: p r runs_acc_False runs_acc_True)
  qed
qed

lemma count_runs_acc: "sum_list (runs_acc n xs) = n + length (filter id xs)"
proof (induction xs arbitrary: n)
  case Nil
  then show ?case by simp
next
  case (Cons x xs)
  then show ?case by (cases x) simp_all
qed

lemma map_upt_const:
  "\<forall>k. x \<le> k \<and> k < y \<longrightarrow> c k = b \<Longrightarrow> map c [x..<y] = replicate (y - x) b"
  by (simp add: list_eq_iff_nth_eq)

lemma map_upt_shift: "map g [0..<Suc n] = g 0 # map (\<lambda>i. g (Suc i)) [0..<n]"
  by (simp add: upt_conv_Cons map_Suc_upt [symmetric] del: upt_Suc)

lemma upt_split3:
  "a \<le> b \<Longrightarrow> b \<le> c \<Longrightarrow> c \<le> d \<Longrightarrow> [a..<d] = [a..<b] @ [b..<c] @ [c..<d]"
  by (metis le_Suc_ex le_trans upt_add_eq_append)

lemma cells_render:
  fixes off :: "nat \<Rightarrow> nat"
  assumes "hs \<noteq> []"
    and "a \<le> off 0"
    and "\<forall>k. a \<le> k \<and> k < off 0 \<longrightarrow> \<not> c k"
    and "\<forall>i < length hs. \<forall>k. off i \<le> k \<and> k < off i + hs ! i \<longrightarrow> c k"
    and "\<forall>i. Suc i < length hs \<longrightarrow> off i + hs ! i < off (Suc i)
           \<and> (\<forall>k. off i + hs ! i \<le> k \<and> k < off (Suc i) \<longrightarrow> \<not> c k)"
    and "off (length hs - 1) + last hs \<le> sz"
    and "\<forall>k. off (length hs - 1) + last hs \<le> k \<and> k < sz \<longrightarrow> \<not> c k"
  shows "a \<le> sz \<and> map c [a..<sz] = render a (zip (map off [0..<length hs]) hs) sz"
  using assms
proof (induction hs arbitrary: a off)
  case Nil
  then show ?case by simp
next
  case (Cons h hs)
  have 1: "map c [a..<off 0] = replicate (off 0 - a) False"
    using Cons.prems(3) by (intro map_upt_const) simp
  have 2: "map c [off 0..<off 0 + h] = replicate h True"
    using Cons.prems(4) map_upt_const [of "off 0" "off 0 + h" c True] by force
  have z: "zip (map off [0..<length (h # hs)]) (h # hs)
      = (off 0, h) # zip (map (\<lambda>i. off (Suc i)) [0..<length hs]) hs"
    by (simp add: map_upt_shift del: upt_Suc)
  show ?case
  proof (cases "hs = []")
    case True
    from Cons.prems True have le: "a \<le> off 0" "off 0 + h \<le> sz" by simp_all
    have 3: "map c [off 0 + h..<sz] = replicate (sz - (off 0 + h)) False"
      using Cons.prems(7) True by (intro map_upt_const) simp
    have "[a..<sz] = [a..<off 0] @ [off 0..<off 0 + h] @ [off 0 + h..<sz]"
      using le by (intro upt_split3) simp_all
    then show ?thesis using True 1 2 3 le by simp
  next
    case False
    let ?off = "\<lambda>i. off (Suc i)"
    have ih: "off 0 + h \<le> sz \<and>
       map c [off 0 + h..<sz] = render (off 0 + h) (zip (map ?off [0..<length hs]) hs) sz"
    proof (rule Cons.IH [OF False])
      show "off 0 + h \<le> off (Suc 0)" using Cons.prems(5) False by force
      show "\<forall>k. off 0 + h \<le> k \<and> k < off (Suc 0) \<longrightarrow> \<not> c k"
        using Cons.prems(5) False by force
      show "\<forall>i<length hs. \<forall>k. off (Suc i) \<le> k \<and> k < off (Suc i) + hs ! i \<longrightarrow> c k"
        using Cons.prems(4) by force
      show "\<forall>i. Suc i < length hs \<longrightarrow> off (Suc i) + hs ! i < off (Suc (Suc i))
           \<and> (\<forall>k. off (Suc i) + hs ! i \<le> k \<and> k < off (Suc (Suc i)) \<longrightarrow> \<not> c k)"
        using Cons.prems(5) by force
      show "off (Suc (length hs - 1)) + last hs \<le> sz"
        using Cons.prems(6) False by simp
      show "\<forall>k. off (Suc (length hs - 1)) + last hs \<le> k \<and> k < sz \<longrightarrow> \<not> c k"
        using Cons.prems(7) False by simp
    qed
    have le: "a \<le> off 0" "off 0 + h \<le> sz" using Cons.prems(2) ih by simp_all
    have "[a..<sz] = [a..<off 0] @ [off 0..<off 0 + h] @ [off 0 + h..<sz]"
      using le by (intro upt_split3) simp_all
    then show ?thesis using 1 2 ih le unfolding z by simp
  qed
qed

lemma spaced_zip:
  fixes off :: "nat \<Rightarrow> nat"
  assumes "hs \<noteq> []"
    and "\<forall>h \<in> set hs. 0 < h"
    and "a \<le> off 0"
    and "\<forall>i. Suc i < length hs \<longrightarrow> off i + hs ! i < off (Suc i)"
    and "off (length hs - 1) + last hs \<le> sz"
  shows "spaced a (zip (map off [0..<length hs]) hs) sz"
  using assms
proof (induction hs arbitrary: a off)
  case Nil
  then show ?case by simp
next
  case (Cons h hs)
  have z: "zip (map off [0..<length (h # hs)]) (h # hs)
      = (off 0, h) # zip (map (\<lambda>i. off (Suc i)) [0..<length hs]) hs"
    by (simp add: map_upt_shift del: upt_Suc)
  show ?case
  proof (cases "hs = []")
    case True
    with Cons.prems show ?thesis by simp
  next
    case False
    have "spaced (Suc (off 0 + h)) (zip (map (\<lambda>i. off (Suc i)) [0..<length hs]) hs) sz"
    proof (rule Cons.IH [OF False])
      show "\<forall>h\<in>set hs. 0 < h" using Cons.prems(2) by simp
      show "Suc (off 0 + h) \<le> off (Suc 0)" using Cons.prems(4) False by force
      show "\<forall>i. Suc i < length hs \<longrightarrow> off (Suc i) + hs ! i < off (Suc (Suc i))"
        using Cons.prems(4) by force
      show "off (Suc (length hs - 1)) + last hs \<le> sz" using Cons.prems(5) False by simp
    qed
    moreover have "zip (map (\<lambda>i. off (Suc i)) [0..<length hs]) hs \<noteq> []"
      using False by (cases hs) (simp_all add: upt_conv_Cons del: upt_Suc)
    ultimately show ?thesis using Cons.prems(2,3) unfolding z by simp
  qed
qed

section \<open>From the assertions of a line to its cells\<close>

lemma placement_nonneg:
  assumes "placement f io numbers skip base sz" and "\<forall>h \<in> set numbers. 0 < h"
  shows "i < length numbers \<Longrightarrow> 0 \<le> io i"
proof (induction i)
  case 0
  then show ?case using assms(1) by (simp add: placement_def)
next
  case (Suc i)
  then have "0 \<le> io i" and "i < length numbers - 1" by simp_all
  moreover have "0 < numbers ! i" using assms(2) Suc.prems by simp
  moreover have "io i + numbers ! i < io (i + 1)"
    using assms(1) \<open>i < length numbers - 1\<close> by (simp add: placement_def)
  ultimately show ?case by simp
qed

lemma placement_cells:
  assumes pl: "placement f io numbers skip base sz"
    and ne: "numbers \<noteq> []"
    and pos: "\<forall>h \<in> set numbers. 0 < h"
  shows "map (\<lambda>k. f (int base + int skip * int k)) [0..<sz]
           = render 0 (zip (map (\<lambda>i. nat (io i)) [0..<length numbers]) (map nat numbers)) sz"
    and "spaced 0 (zip (map (\<lambda>i. nat (io i)) [0..<length numbers]) (map nat numbers)) sz"
proof -
  let ?c = "\<lambda>k. f (int base + int skip * int k)"
  let ?off = "\<lambda>i. nat (io i)"
  let ?hs = "map nat numbers"
  have nn: "\<And>i. i < length numbers \<Longrightarrow> 0 \<le> io i"
    using placement_nonneg [OF pl pos] .
  have hpos: "\<And>i. i < length numbers \<Longrightarrow> 0 < numbers ! i" using pos by simp
  have n: "0 < length numbers" using ne by simp
  have lastn: "last numbers = numbers ! (length numbers - 1)"
    using ne by (simp add: last_conv_nth)
  have lasth: "last ?hs = nat (last numbers)" using ne by (simp add: last_map)
  have len: "length ?hs = length numbers" by simp
  have a1: "(0::nat) \<le> ?off 0" by simp
  have a2: "\<forall>k. 0 \<le> k \<and> k < ?off 0 \<longrightarrow> \<not> ?c k"
  proof (intro allI impI)
    fix k assume "0 \<le> k \<and> k < ?off 0"
    then have "\<not> int k < 0" "\<not> io 0 \<le> int k" by auto
    then show "\<not> ?c k" using pl unfolding placement_def by blast
  qed
  have a3: "\<forall>i < length ?hs. \<forall>k. ?off i \<le> k \<and> k < ?off i + ?hs ! i \<longrightarrow> ?c k"
  proof (intro allI impI)
    fix i k assume i: "i < length ?hs" and k: "?off i \<le> k \<and> k < ?off i + ?hs ! i"
    then have i': "i < length numbers" by simp
    from k i' have "?off i \<le> k" "k < ?off i + nat (numbers ! i)" by simp_all
    then have "k - ?off i < nat (numbers ! i)" by linarith
    with pl i' have "f (int base + (io i + int (k - ?off i)) * int skip)"
      unfolding placement_def by blast
    moreover have "io i + int (k - ?off i) = int k" using k nn [OF i'] by simp
    ultimately have "f (int base + int k * int skip)" by (simp only:)
    then show "?c k" by (simp only: mult.commute)
  qed
  have a4: "\<forall>i. Suc i < length ?hs \<longrightarrow> ?off i + ?hs ! i < ?off (Suc i)
           \<and> (\<forall>k. ?off i + ?hs ! i \<le> k \<and> k < ?off (Suc i) \<longrightarrow> \<not> ?c k)"
  proof (intro allI impI conjI)
    fix i assume "Suc i < length ?hs"
    then have i: "i < length numbers - 1" "i < length numbers" "Suc i < length numbers" by simp_all
    from pl i have lt: "io i + numbers ! i < io (i + 1)" unfolding placement_def by blast
    then show "?off i + ?hs ! i < ?off (Suc i)" using nn [OF i(2)] hpos [OF i(2)] i by simp
    fix k assume k: "?off i + ?hs ! i \<le> k \<and> k < ?off (Suc i)"
    then have "\<not> int k < io i + numbers ! i" "\<not> io (i + 1) \<le> int k"
      using nn [OF i(2)] hpos [OF i(2)] i by auto
    moreover from pl i have "\<forall>x. x < io i + numbers ! i \<or> io (i + 1) \<le> x
         \<or> \<not> f (int base + int skip * x)"
      unfolding placement_def by blast
    ultimately show "\<not> ?c k" by blast
  qed
  have nl: "length numbers - 1 < length numbers" using n by simp
  have a5: "?off (length ?hs - 1) + last ?hs \<le> sz"
  proof -
    from pl have "io (length numbers - 1) + last numbers \<le> int sz"
      unfolding placement_def by blast
    then show ?thesis using nn [OF nl] hpos [OF nl] lastn by (simp add: lasth)
  qed
  have a6: "\<forall>k. ?off (length ?hs - 1) + last ?hs \<le> k \<and> k < sz \<longrightarrow> \<not> ?c k"
  proof (intro allI impI)
    fix k assume k: "?off (length ?hs - 1) + last ?hs \<le> k \<and> k < sz"
    then have "\<not> int k < io (length numbers - 1) + last numbers" "\<not> int sz \<le> int k"
      using nn [OF nl] hpos [OF nl] lastn by (auto simp: lasth)
    moreover from pl have "\<forall>x. x < io (length numbers - 1) + last numbers \<or> int sz \<le> x
         \<or> \<not> f (int base + int skip * x)"
      unfolding placement_def by blast
    ultimately show "\<not> ?c k" by blast
  qed
  have hne: "?hs \<noteq> []" using ne by simp
  from cells_render [of ?hs 0 ?off ?c sz, OF hne a1 a2 a3 a4 a5 a6]
  show "map ?c [0..<sz] = render 0 (zip (map ?off [0..<length numbers]) ?hs) sz"
    by simp
  have hp: "\<forall>h \<in> set ?hs. 0 < h" using pos by simp
  have a4': "\<forall>i. Suc i < length ?hs \<longrightarrow> ?off i + ?hs ! i < ?off (Suc i)"
    using a4 by blast
  from spaced_zip [of ?hs 0 ?off sz, OF hne hp a1 a4' a5]
  show "spaced 0 (zip (map ?off [0..<length numbers]) ?hs) sz" by simp
qed

section \<open>Soundness of the encoding of one line\<close>

lemma sum_list_map_nat: "\<forall>h \<in> set xs. 0 \<le> h \<Longrightarrow> int (sum_list (map nat xs)) = sum_list xs"
  by (induction xs) simp_all

lemma line_cells_sound:
  assumes ne: "numbers \<noteq> []"
    and pos: "\<forall>h \<in> set numbers. 0 < h"
    and sat: "satisfies m (column_assertions numbers skip base sz prefix)"
  shows "line_cells m skip base sz
           = render 0 (zip (map nat (offsets m prefix (length numbers))) (map nat numbers)) sz"
    and "line_hints (line_cells m skip base sz) = map nat numbers"
    and "int (length (filter id (line_cells m skip base sz))) = sum_list numbers"
proof -
  let ?io = "\<lambda>i. int_val m (prefix @ str_nat i)"
  let ?ps = "zip (map (\<lambda>i. nat (?io i)) [0..<length numbers]) (map nat numbers)"
  have pl: "placement (field_val m) ?io numbers skip base sz"
    using sat satisfies_column_assertions [OF ne] by simp
  have eq: "map nat (offsets m prefix (length numbers)) = map (\<lambda>i. nat (?io i)) [0..<length numbers]"
    by (simp add: offsets_def)
  show r: "line_cells m skip base sz
           = render 0 (zip (map nat (offsets m prefix (length numbers))) (map nat numbers)) sz"
    unfolding eq line_cells_def by (rule placement_cells(1) [OF pl ne pos])
  have sp: "spaced 0 ?ps sz" by (rule placement_cells(2) [OF pl ne pos])
  have psne: "?ps \<noteq> []" using ne by (cases numbers) (simp_all add: upt_conv_Cons del: upt_Suc)
  have "runs_acc 0 (render 0 ?ps sz) = map snd ?ps" by (rule runs_render [OF sp psne])
  then show h: "line_hints (line_cells m skip base sz) = map nat numbers"
    unfolding r eq line_hints_def by simp
  have "sum_list (runs_acc 0 (line_cells m skip base sz))
          = 0 + length (filter id (line_cells m skip base sz))"
    by (rule count_runs_acc)
  then have "length (filter id (line_cells m skip base sz)) = sum_list (map nat numbers)"
    using h by (simp add: line_hints_def)
  moreover have "\<forall>h \<in> set numbers. 0 \<le> h" using pos by auto
  ultimately show "int (length (filter id (line_cells m skip base sz))) = sum_list numbers"
    using sum_list_map_nat by simp
qed

lemma offsets_ordered:
  assumes ne: "numbers \<noteq> []"
    and sat: "satisfies m (column_assertions numbers skip base sz prefix)"
  shows "0 \<le> offsets m prefix (length numbers) ! 0"
    and "\<forall>i. Suc i < length numbers \<longrightarrow>
           offsets m prefix (length numbers) ! i + numbers ! i
             < offsets m prefix (length numbers) ! Suc i"
    and "last (offsets m prefix (length numbers)) + last numbers \<le> int sz"
proof -
  let ?io = "\<lambda>i. int_val m (prefix @ str_nat i)"
  have pl: "placement (field_val m) ?io numbers skip base sz"
    using sat satisfies_column_assertions [OF ne] by simp
  have n: "0 < length numbers" using ne by simp
  have nth: "\<And>i. i < length numbers \<Longrightarrow> offsets m prefix (length numbers) ! i = ?io i"
    by (simp add: offsets_def)
  show "0 \<le> offsets m prefix (length numbers) ! 0"
    using pl n by (simp add: nth placement_def)
  show "\<forall>i. Suc i < length numbers \<longrightarrow>
           offsets m prefix (length numbers) ! i + numbers ! i
             < offsets m prefix (length numbers) ! Suc i"
  proof (intro allI impI)
    fix i assume i: "Suc i < length numbers"
    then have "i < length numbers - 1" by simp
    with pl have "?io i + numbers ! i < ?io (i + 1)" unfolding placement_def by blast
    then show "offsets m prefix (length numbers) ! i + numbers ! i
             < offsets m prefix (length numbers) ! Suc i"
      using i by (simp add: nth)
  qed
  have "last (offsets m prefix (length numbers)) = ?io (length numbers - 1)"
    using n by (simp add: offsets_def last_conv_nth)
  then show "last (offsets m prefix (length numbers)) + last numbers \<le> int sz"
    using pl by (simp add: placement_def)
qed

lemma str_nat_digit: "n < 10 \<Longrightarrow> str_nat n = [digit n]"
  by (simp add: str_nat.simps)

lemma sat_example:
  "satisfies \<lparr>field_val = (\<lambda>k. k = 0 \<or> k = 2), int_val = (\<lambda>s. if s = ''h01'' then 2 else 0)\<rparr>
     (column_assertions [1, 1] 1 0 3 ''h0'')"
  apply (simp add: satisfies_column_assertions placement_def str_nat_digit digit_def)
  apply (auto simp: less_Suc_eq)
  done

text \<open>
  Claim C1. A model that satisfies the assertions \<^verbatim>\<open>_add_column\<close> adds for a non-empty line
  of positive hints gives the cells of that line exactly the hinted runs: the line is the
  rendering of the runs at the values of the position variables, with every other cell
  empty; its runs, read off the cells, are the hints in order, so it has \<open>sum numbers\<close>
  filled cells; and the offsets satisfy \<open>0 \<le> offset[0]\<close>,
  \<open>offset[i] + h[i] < offset[i+1]\<close> and \<open>offset[last] + h[last] \<le> size\<close>.
\<close>

theorem line_encoding_sound:
  assumes "numbers \<noteq> []"
    and "\<forall>h \<in> set numbers. 0 < h"
    and "satisfies m (column_assertions numbers skip base sz prefix)"
  shows "line_cells m skip base sz
           = render 0 (zip (map nat (offsets m prefix (length numbers))) (map nat numbers)) sz
       \<and> line_hints (line_cells m skip base sz) = map nat numbers
       \<and> int (length (filter id (line_cells m skip base sz))) = sum_list numbers
       \<and> 0 \<le> offsets m prefix (length numbers) ! 0
       \<and> (\<forall>i. Suc i < length numbers \<longrightarrow>
             offsets m prefix (length numbers) ! i + numbers ! i
               < offsets m prefix (length numbers) ! Suc i)
       \<and> last (offsets m prefix (length numbers)) + last numbers \<le> int sz"
  using line_cells_sound [OF assms] offsets_ordered [OF assms(1,3)] by blast

theorem line_encoding_sound_witness:
  "[1, 1] \<noteq> ([] :: int list) \<and> list_all (\<lambda>h. 0 < h) [1, 1 :: int]
   \<and> satisfies \<lparr>field_val = (\<lambda>k. k = 0 \<or> k = 2),
                  int_val = (\<lambda>s. if s = ''h01'' then 2 else 0)\<rparr>
        (column_assertions [1, 1] 1 0 3 ''h0'')
   \<and> line_hints (line_cells \<lparr>field_val = (\<lambda>k. k = 0 \<or> k = 2),
                  int_val = (\<lambda>s. if s = ''h01'' then 2 else 0)\<rparr> 1 0 3) = [1, 1]"
proof -
  let ?m = "\<lparr>field_val = (\<lambda>k. k = 0 \<or> k = 2),
             int_val = (\<lambda>s. if s = ''h01'' then 2 else 0)\<rparr>"
  have a: "[1, 1] \<noteq> ([] :: int list)" by simp
  have b: "\<forall>h \<in> set [1, 1 :: int]. 0 < h" by simp
  have c: "satisfies ?m (column_assertions [1, 1] 1 0 3 ''h0'')" by (rule sat_example)
  from line_encoding_sound [OF a b c]
  have "line_hints (line_cells ?m 1 0 3) = map nat [1, 1]" by blast
  then have "line_hints (line_cells ?m 1 0 3) = [1, 1]" by simp
  with a c show ?thesis by simp
qed

section \<open>The store of a whole puzzle\<close>

lemma satisfies_append: "satisfies m (xs @ ys) = (satisfies m xs \<and> satisfies m ys)"
  by (simp add: satisfies_def)

lemma satisfies_concat_upt:
  "satisfies m (concat (map g [0..<n])) = (\<forall>k < n. satisfies m (g k))"
  by (auto simp: satisfies_def list_all_iff)

lemma add_rows_eq:
  "add_rows width i cs store =
     store @ concat (map (\<lambda>k. column_assertions (cs ! k) 1 ((i + k) * width) width
                               (''h'' @ str_nat (i + k))) [0..<length cs])"
proof (induction cs arbitrary: i store)
  case Nil
  then show ?case by simp
next
  case (Cons c cs)
  show ?case
    by (simp add: Cons.IH add_column_def map_upt_shift del: upt_Suc)
qed

lemma add_cols_eq:
  "add_cols width height i cs store =
     store @ concat (map (\<lambda>k. column_assertions (cs ! k) width (i + k) height
                               (''v'' @ str_nat (i + k))) [0..<length cs])"
proof (induction cs arbitrary: i store)
  case Nil
  then show ?case by simp
next
  case (Cons c cs)
  show ?case
    by (simp add: Cons.IH add_column_def map_upt_shift del: upt_Suc)
qed

lemma encode_eq:
  "encode h v =
     concat (map (\<lambda>j. column_assertions (h ! j) 1 (j * length v) (length v) (''h'' @ str_nat j))
               [0..<length h])
     @ concat (map (\<lambda>i. column_assertions (v ! i) (length v) i (length h) (''v'' @ str_nat i))
               [0..<length v])"
  by (simp add: encode_def Let_def add_rows_eq add_cols_eq)

lemma satisfies_encode:
  "satisfies m (encode h v) =
     ((\<forall>j < length h. satisfies m
          (column_assertions (h ! j) 1 (j * length v) (length v) (''h'' @ str_nat j)))
      \<and> (\<forall>i < length v. satisfies m
          (column_assertions (v ! i) (length v) i (length h) (''v'' @ str_nat i))))"
  by (simp only: encode_eq satisfies_append satisfies_concat_upt)

lemma extract_grid_nth:
  "i < width \<Longrightarrow> j < height \<Longrightarrow>
     extract_grid m width height ! i ! j = field_val m (int (j * width + i))"
  by (simp add: extract_grid_def)

lemma row_line_nth:
  "i < width \<Longrightarrow> j < height \<Longrightarrow>
     line_cells m 1 (j * width) width ! i = extract_grid m width height ! i ! j"
  by (simp add: extract_grid_def line_cells_def)

lemma col_line_nth:
  "i < width \<Longrightarrow> j < height \<Longrightarrow>
     line_cells m width i height ! j = extract_grid m width height ! i ! j"
  by (simp add: extract_grid_def line_cells_def algebra_simps)

lemma col_line: "i < width \<Longrightarrow> line_cells m width i height = extract_grid m width height ! i"
  by (simp add: extract_grid_def line_cells_def algebra_simps)

lemma row_line:
  "j < height \<Longrightarrow>
     line_cells m 1 (j * width) width = map (\<lambda>col. col ! j) (extract_grid m width height)"
  by (simp add: extract_grid_def line_cells_def algebra_simps list_eq_iff_nth_eq)

section \<open>Empty hint lines and the cache of solve\<close>

lemma empty_sat:
  "satisfies m (column_assertions [] skip base sz prefix)
     = (line_cells m skip base sz = replicate sz False)"
  by (auto simp: satisfies_def column_assertions_def line_cells_def list_all_iff list_eq_iff_nth_eq)

text \<open>
  Claim C4. For an empty hint list \<^verbatim>\<open>_add_column\<close> adds exactly the negations of the
  \<open>size\<close> cells of the line, no assertion has an integer variable, and a model satisfies
  them exactly when every cell of the line is empty.
\<close>

theorem empty_hint_line:
  "add_column [] skip base sz prefix store
     = store @ map (\<lambda>i. Not (Select (IntVal (int base + int skip * int i)))) [0..<sz]
   \<and> \<Union> (set (map bvars (column_assertions [] skip base sz prefix))) = {}
   \<and> (satisfies m (column_assertions [] skip base sz prefix)
        = (line_cells m skip base sz = replicate sz False))"
  by (simp add: empty_sat add_column_def) (simp add: column_assertions_def)

theorem empty_hint_line_witness:
  "add_column [] 1 0 2 ''v0'' [] = [Not (Select (IntVal 0)), Not (Select (IntVal 1))]
   \<and> satisfies \<lparr>field_val = (\<lambda>k. False), int_val = (\<lambda>s. 0)\<rparr> (column_assertions [] 1 0 2 ''v0'')"
  using empty_hint_line [of 1 0 2 "''v0''" "[]" "\<lparr>field_val = (\<lambda>k. False), int_val = (\<lambda>s. 0)\<rparr>"]
  by (simp add: line_cells_def upt_conv_Cons numeral_2_eq_2)

lemma solve_times_solved:
  "solved d \<Longrightarrow> solve_times slv n (d, c) = (replicate n (answer d), (d, c))"
  by (induction n) (simp_all add: solve_def)

text \<open>
  Claim C8. A second call of \<^verbatim>\<open>solve\<close> returns what the first returned and leaves the
  object as the first call left it, solved. On a new object any number of calls (at least
  one) all return the answer of the single call of \<^verbatim>\<open>_solve\<close>.
\<close>

theorem solve_idempotent:
  "fst (solve slv (snd (solve slv w))) = fst (solve slv w)
   \<and> snd (solve slv (snd (solve slv w))) = snd (solve slv w)
   \<and> solved (fst (snd (solve slv w)))
   \<and> solve_times slv (Suc n) (init_DrawLogic h v, c)
     = (replicate (Suc n) (solve_private slv (init_DrawLogic h v)),
        (init_DrawLogic h v \<lparr>solved := True, answer := solve_private slv (init_DrawLogic h v)\<rparr>,
         Suc c))"
proof -
  have "fst (solve slv (snd (solve slv w))) = fst (solve slv w)
   \<and> snd (solve slv (snd (solve slv w))) = snd (solve slv w)
   \<and> solved (fst (snd (solve slv w)))"
    by (cases w) (simp add: solve_def Let_def)
  moreover have "solve_times slv (Suc n) (init_DrawLogic h v, c)
     = (replicate (Suc n) (solve_private slv (init_DrawLogic h v)),
        (init_DrawLogic h v \<lparr>solved := True, answer := solve_private slv (init_DrawLogic h v)\<rparr>,
         Suc c))"
    by (simp add: solve_def Let_def init_DrawLogic_def solve_times_solved solve_private_def)
  ultimately show ?thesis by blast
qed

theorem solve_idempotent_witness:
  "snd (snd (solve_times (\<lambda>cs. Unsat) (Suc 2) (init_DrawLogic [[1]] [[]], 0))) = 1
   \<and> fst (solve_times (\<lambda>cs. Unsat) (Suc 2) (init_DrawLogic [[1]] [[]], 0)) = [None, None, None]"
  using solve_idempotent [of "\<lambda>cs. Unsat" "(init_DrawLogic [[1]] [[]], 0)" 2 "[[1]]" "[[]]" 0]
  by (simp add: solve_private_def numeral_2_eq_2)

section \<open>The hint list with the single number zero\<close>

lemma zero_sat:
  "(\<exists>m. field_val m = f \<and> satisfies m (column_assertions [0] skip base sz prefix))
     = (\<forall>k < sz. \<not> f (int base + int skip * int k))"
proof
  assume "\<exists>m. field_val m = f \<and> satisfies m (column_assertions [0] skip base sz prefix)"
  then obtain m where m: "field_val m = f"
    and "satisfies m (column_assertions [0] skip base sz prefix)" by blast
  then have pl: "placement f (\<lambda>i. int_val m (prefix @ str_nat i)) [0] skip base sz"
    by (simp add: satisfies_column_assertions)
  let ?o = "int_val m (prefix @ str_nat 0)"
  from pl have b: "\<forall>x. x < 0 \<or> ?o \<le> x \<or> \<not> f (int base + int skip * x)"
    and a: "\<forall>x. x < ?o \<or> int sz \<le> x \<or> \<not> f (int base + int skip * x)"
    by (simp_all add: placement_def)
  show "\<forall>k < sz. \<not> f (int base + int skip * int k)"
  proof (intro allI impI)
    fix k assume k: "k < sz"
    show "\<not> f (int base + int skip * int k)"
    proof (cases "int k < ?o")
      case True
      with b [rule_format, of "int k"] show ?thesis by simp
    next
      case False
      with a [rule_format, of "int k"] k show ?thesis by simp
    qed
  qed
next
  assume e: "\<forall>k < sz. \<not> f (int base + int skip * int k)"
  let ?m = "\<lparr>field_val = f, int_val = (\<lambda>s. 0)\<rparr>"
  have "\<And>x. 0 \<le> x \<Longrightarrow> x < int sz \<Longrightarrow> \<not> f (int base + int skip * x)"
  proof -
    fix x :: int assume "0 \<le> x" "x < int sz"
    then have "nat x < sz" "int (nat x) = x" by simp_all
    with e show "\<not> f (int base + int skip * x)" by metis
  qed
  then have "placement f (\<lambda>i. int_val ?m (prefix @ str_nat i)) [0] skip base sz"
    by (auto simp: placement_def)
  then have "satisfies ?m (column_assertions [0] skip base sz prefix)"
    by (simp add: satisfies_column_assertions)
  then show "\<exists>m. field_val m = f \<and> satisfies m (column_assertions [0] skip base sz prefix)"
    by (intro exI [of _ ?m]) simp
qed

lemma empty_sat_field:
  "(\<exists>m. field_val m = f \<and> satisfies m (column_assertions [] skip base sz prefix))
     = (\<forall>k < sz. \<not> f (int base + int skip * int k))"
proof -
  have "\<And>m. satisfies m (column_assertions [] skip base sz prefix)
     = (\<forall>k < sz. \<not> field_val m (int base + int skip * int k))"
    by (auto simp: satisfies_def column_assertions_def list_all_iff)
  then show ?thesis
    by (metis z3model.select_convs(1))
qed

lemma zero_vars:
  "\<Union> (set (map bvars (column_assertions [0] skip base sz prefix))) = {prefix @ ''0''}"
  by (auto simp: column_assertions_def column_vars_def cell_def str_nat_digit digit_def)

text \<open>
  Claim C9. For every line, the hint list \<open>[0]\<close> and the empty hint list admit the same
  assignments of the cells, those where every cell of the line is empty; the assertions
  for \<open>[0]\<close> have the one position variable \<^verbatim>\<open>prefix0\<close>, those for \<open>[]\<close> have none.
\<close>

theorem zero_hint_same_as_empty:
  "(\<exists>m. field_val m = f \<and> satisfies m (column_assertions [0] skip base sz prefix))
     = (\<exists>m. field_val m = f \<and> satisfies m (column_assertions [] skip base sz prefix))
   \<and> (\<exists>m. field_val m = f \<and> satisfies m (column_assertions [0] skip base sz prefix))
     = (map (\<lambda>k. f (int base + int skip * int k)) [0..<sz] = replicate sz False)
   \<and> \<Union> (set (map bvars (column_assertions [0] skip base sz prefix))) = {prefix @ ''0''}
   \<and> \<Union> (set (map bvars (column_assertions [] skip base sz prefix))) = {}"
proof -
  have "(map (\<lambda>k. f (int base + int skip * int k)) [0..<sz] = replicate sz False)
      = (\<forall>k < sz. \<not> f (int base + int skip * int k))"
    by (auto simp: list_eq_iff_nth_eq)
  moreover have "\<Union> (set (map bvars (column_assertions [] skip base sz prefix))) = {}"
    by (simp add: column_assertions_def)
  ultimately show ?thesis
    using zero_sat [of f skip base sz prefix] empty_sat_field [of f skip base sz prefix]
      zero_vars [of skip base sz prefix]
    by simp
qed

theorem zero_hint_same_as_empty_witness:
  "(\<exists>m. field_val m = (\<lambda>k. False) \<and> satisfies m (column_assertions [0] 1 0 2 ''v3''))
   \<and> (\<exists>m. field_val m = (\<lambda>k. False) \<and> satisfies m (column_assertions [] 1 0 2 ''v3''))
   \<and> \<not> (\<exists>m. field_val m = (\<lambda>k. k = 1) \<and> satisfies m (column_assertions [0] 1 0 2 ''v3''))"
  using zero_hint_same_as_empty [of "\<lambda>k. False" 1 0 2 "''v3''"]
    zero_hint_same_as_empty [of "\<lambda>k. k = 1" 1 0 2 "''v3''"]
  by (simp add: upt_conv_Cons numeral_2_eq_2) blast

section \<open>Printing the answer\<close>

lemma unsat_1x1: "\<not> (\<exists>m. satisfies m (encode [[1]] [[]]))"
proof
  assume "\<exists>m. satisfies m (encode [[1]] [[]])"
  then obtain m where m: "satisfies m (encode [[1]] [[]])" by blast
  let ?o = "int_val m (''h0'' @ str_nat 0)"
  from m have r: "satisfies m (column_assertions [1] 1 0 1 ''h0'')"
    and c: "satisfies m (column_assertions [] 1 0 1 ''v0'')"
    by (simp_all add: satisfies_encode str_nat_digit digit_def)
  from r have "placement (field_val m) (\<lambda>i. int_val m (''h0'' @ str_nat i)) [1] 1 0 1"
    by (simp add: satisfies_column_assertions)
  then have "0 \<le> ?o" "?o + 1 \<le> 1" "field_val m (0 + (?o + 0) * 1)"
    by (simp_all add: placement_def)
  then have "field_val m 0" by simp
  moreover from c have "\<not> field_val m 0"
    by (simp add: satisfies_def column_assertions_def)
  ultimately show False by contradiction
qed

text \<open>
  Claim C6. When the store of a puzzle has no model and the solver is sound on it,
  \<^verbatim>\<open>solve\<close> returns \<^verbatim>\<open>None\<close> and \<^verbatim>\<open>print_answer\<close> writes the line
  \<^verbatim>\<open>No solutions!\<close> and nothing else, without an error.
\<close>

theorem unsat_prints_no_solutions:
  assumes "\<not> (\<exists>m. satisfies m (encode h v))"
    and "sound_on slv (encode h v)"
  shows "fst (solve slv (init_DrawLogic h v, c)) = None
     \<and> fst (print_answer slv (init_DrawLogic h v, c)) = Inr (''No solutions!'' @ [CHR 0x0A])"
proof -
  have "solve_private slv (init_DrawLogic h v \<lparr>solved := True\<rparr>) = None"
    using assms
    by (cases "slv (encode h v)")
      (auto simp: solve_private_def init_DrawLogic_def sound_on_def)
  then have "fst (solve slv (init_DrawLogic h v, c)) = None"
    by (simp add: solve_def init_DrawLogic_def Let_def)
  then show ?thesis
    by (simp add: print_answer_def write_answer_def split_beta)
qed

theorem unsat_prints_no_solutions_witness:
  "\<not> (\<exists>m. satisfies m (encode [[1]] [[]])) \<and> sound_on (\<lambda>cs. Unsat) (encode [[1]] [[]])
   \<and> fst (print_answer (\<lambda>cs. Unsat) (init_DrawLogic [[1]] [[]], 0)) = Inr (''No solutions!'' @ [CHR 0x0A])"
proof -
  have s: "sound_on (\<lambda>cs. Unsat) (encode [[1]] [[]])" by (simp add: sound_on_def)
  from unsat_prints_no_solutions [OF unsat_1x1 s, of 0] unsat_1x1 s show ?thesis by blast
qed

lemma write_row_ok:
  "\<forall>i \<in> set is. j < length (q ! i) \<Longrightarrow>
     write_row q j is = Inr (map (\<lambda>i. if q ! i ! j then CHR ''x'' else CHR ''_'') is @ [CHR 0x0A])"
  by (induction "is") simp_all

lemma write_rows_ok:
  "\<forall>j \<in> set js. \<forall>i < length q. j < length (q ! i) \<Longrightarrow>
     write_rows q js = Inr (concat (map (\<lambda>j.
         map (\<lambda>i. if q ! i ! j then CHR ''x'' else CHR ''_'') [0..<length q] @ [CHR 0x0A]) js))"
  by (induction js) (simp_all add: write_row_ok)

lemma length_extract_grid [simp]: "length (extract_grid m width height) = width"
  by (simp add: extract_grid_def)

lemma length_extract_grid_nth [simp]:
  "i < width \<Longrightarrow> length (extract_grid m width height ! i) = height"
  by (simp add: extract_grid_def)

lemma solve_sat:
  "slv (encode h v) = Sat m \<Longrightarrow>
     solve slv (init_DrawLogic h v, c)
       = (Some (extract_grid m (length v) (length h)),
          (init_DrawLogic h v \<lparr>solved := True,
              answer := Some (extract_grid m (length v) (length h))\<rparr>, Suc c))"
  by (simp add: solve_def solve_private_def init_DrawLogic_def Let_def)

lemma write_answer_grid:
  assumes "0 < width"
  shows "write_answer (Some (extract_grid m width height))
    = Inr (concat (map (\<lambda>j.
         map (\<lambda>i. if extract_grid m width height ! i ! j then CHR ''x'' else CHR ''_'') [0..<width]
           @ [CHR 0x0A]) [0..<height]))"
proof -
  let ?q = "extract_grid m width height"
  from assms obtain q0 qs where q: "?q = q0 # qs"
    by (cases ?q) (auto simp: extract_grid_def)
  have "length q0 = height"
    using length_extract_grid_nth [OF assms, of m height] q by simp
  moreover have "write_rows ?q [0..<height] = Inr (concat (map (\<lambda>j.
         map (\<lambda>i. if ?q ! i ! j then CHR ''x'' else CHR ''_'') [0..<length ?q] @ [CHR 0x0A])
           [0..<height]))"
    by (rule write_rows_ok) simp
  ultimately show ?thesis
    unfolding write_answer_def by (simp add: q [symmetric]) (simp add: q)
qed

text \<open>
  Whenever the solver returns a model and the width is at least one, \<^verbatim>\<open>print_answer\<close>
  writes \<open>height\<close> lines of \<open>width\<close> characters, each followed by a newline: character
  \<open>i\<close> of line \<open>j\<close> is \<^verbatim>\<open>x\<close> when cell \<open>(i, j)\<close> of the solved grid is filled and
  \<^verbatim>\<open>_\<close> otherwise.
\<close>

lemma print_answer_of_model:
  assumes "slv (encode h v) = Sat m" and "v \<noteq> []"
  shows "fst (solve slv (init_DrawLogic h v, c)) = Some (extract_grid m (length v) (length h))
     \<and> fst (print_answer slv (init_DrawLogic h v, c))
       = Inr (concat (map (\<lambda>j.
           map (\<lambda>i. if extract_grid m (length v) (length h) ! i ! j then CHR ''x'' else CHR ''_'')
             [0..<length v] @ [CHR 0x0A]) [0..<length h]))"
  using assms
  by (simp add: print_answer_def solve_sat write_answer_grid)

text \<open>
  Claim C10. With no vertical hint list, when the solver returns a model, \<^verbatim>\<open>solve\<close>
  returns the empty grid and \<^verbatim>\<open>print_answer\<close> fails with an index error at \<^verbatim>\<open>q[0]\<close>.
\<close>

theorem width_zero_fails:
  assumes "slv (encode h []) = Sat m"
  shows "fst (solve slv (init_DrawLogic h [], c)) = Some []
     \<and> fst (print_answer slv (init_DrawLogic h [], c)) = Inl IndexError"
  using assms
  by (simp add: print_answer_def solve_sat write_answer_def extract_grid_def)

theorem width_zero_fails_witness:
  "satisfies \<lparr>field_val = (\<lambda>k. False), int_val = (\<lambda>s. 0)\<rparr> (encode [[], []] [])
   \<and> fst (solve (\<lambda>cs. Sat \<lparr>field_val = (\<lambda>k. False), int_val = (\<lambda>s. 0)\<rparr>)
          (init_DrawLogic [[], []] [], 0)) = Some []
   \<and> fst (print_answer (\<lambda>cs. Sat \<lparr>field_val = (\<lambda>k. False), int_val = (\<lambda>s. 0)\<rparr>)
          (init_DrawLogic [[], []] [], 0)) = Inl IndexError"
proof -
  have a: "(\<lambda>cs. Sat \<lparr>field_val = (\<lambda>k. False), int_val = (\<lambda>s. 0)\<rparr>) (encode [[], []] [])
      = Sat \<lparr>field_val = (\<lambda>k. False), int_val = (\<lambda>s. 0)\<rparr>" by simp
  have s: "satisfies \<lparr>field_val = (\<lambda>k. False), int_val = (\<lambda>s. 0)\<rparr> (encode [[], []] [])"
    by (simp add: satisfies_encode All_less_Suc empty_sat line_cells_def)
  from width_zero_fails [of "\<lambda>cs. Sat \<lparr>field_val = (\<lambda>k. False), int_val = (\<lambda>s. 0)\<rparr>"
      "[[], []]" "\<lparr>field_val = (\<lambda>k. False), int_val = (\<lambda>s. 0)\<rparr>" 0, OF a] s
  show ?thesis by blast
qed

section \<open>The scenario of the specification\<close>

lemma hints3_11: "line_hints [a, b, c] = [1, 1] \<Longrightarrow> a \<and> \<not> b \<and> c"
  by (cases a; cases b; cases c; simp add: line_hints_def)

lemma hints5_not1: "line_hints [True, True, c, d, e] \<noteq> [1]"
  by (cases c; cases d; cases e; simp add: line_hints_def)

lemma line_cells_3: "line_cells m skip base 3
  = [field_val m (int base), field_val m (int base + int skip), field_val m (int base + int skip * 2)]"
  by (simp add: line_cells_def eval_nat_numeral)

lemma line_cells_5: "line_cells m skip base 5
  = [field_val m (int base), field_val m (int base + int skip), field_val m (int base + int skip * 2),
     field_val m (int base + int skip * 3), field_val m (int base + int skip * 4)]"
  by (simp add: line_cells_def eval_nat_numeral)

lemma satisfies_hints:
  assumes "satisfies m (column_assertions numbers skip base sz prefix)"
    and "numbers \<noteq> []" and "\<forall>h \<in> set numbers. 0 < h"
  shows "line_hints (line_cells m skip base sz) = map nat numbers"
  using line_cells_sound(2) [OF assms(2,3,1)] .

lemma encode_row:
  "satisfies m (encode h v) \<Longrightarrow> j < length h \<Longrightarrow>
     satisfies m (column_assertions (h ! j) 1 (j * length v) (length v) (''h'' @ str_nat j))"
  by (simp add: satisfies_encode)

lemma encode_col:
  "satisfies m (encode h v) \<Longrightarrow> i < length v \<Longrightarrow>
     satisfies m (column_assertions (v ! i) (length v) i (length h) (''v'' @ str_nat i))"
  by (simp add: satisfies_encode)

lemma spec_example_unsat:
  "\<not> satisfies m (encode [[3], [1, 1], [1]] [[1, 1], [1, 1], [1, 1], c3, [1]])"
proof
  assume s: "satisfies m (encode [[3], [1, 1], [1]] [[1, 1], [1, 1], [1, 1], c3, [1]])"
  let ?f = "field_val m"
  have row2: "satisfies m (column_assertions [1] 1 10 5 ''h2'')"
    using encode_row [OF s, of 2] by (simp add: str_nat_digit digit_def eval_nat_numeral)
  have col0: "satisfies m (column_assertions [1, 1] 5 0 3 ''v0'')"
    using encode_col [OF s, of 0] by (simp add: str_nat_digit digit_def eval_nat_numeral)
  have col1: "satisfies m (column_assertions [1, 1] 5 1 3 ''v1'')"
    using encode_col [OF s, of 1] by (simp add: str_nat_digit digit_def eval_nat_numeral)
  have "?f 10"
    using satisfies_hints [OF col0] hints3_11 [of "?f 0" "?f 5" "?f 10"]
    by (simp add: line_cells_3)
  moreover have "?f 11"
    using satisfies_hints [OF col1] hints3_11 [of "?f 1" "?f 6" "?f 11"]
    by (simp add: line_cells_3)
  moreover have "line_hints [?f 10, ?f 11, ?f 12, ?f 13, ?f 14] = [1]"
    using satisfies_hints [OF row2] by (simp add: line_cells_5)
  ultimately show False using hints5_not1 by simp
qed

section \<open>The example of the usage documentation\<close>

lemma usage_row0: "satisfies usage_model (column_assertions [3] 1 0 5 ''h0'')"
  apply (simp add: satisfies_column_assertions placement_def str_nat_digit digit_def
      usage_model_def All_less_Suc)
  apply (intro conjI allI)
  apply presburger+
  done

lemma usage_row1: "satisfies usage_model (column_assertions [1, 1] 1 5 5 ''h1'')"
  apply (simp add: satisfies_column_assertions placement_def str_nat_digit digit_def
      usage_model_def All_less_Suc)
  apply (intro conjI allI)
  apply presburger+
  done

lemma usage_row2: "satisfies usage_model (column_assertions [3] 1 10 5 ''h2'')"
  apply (simp add: satisfies_column_assertions placement_def str_nat_digit digit_def
      usage_model_def All_less_Suc)
  apply (intro conjI allI)
  apply presburger+
  done

lemma usage_col0: "satisfies usage_model (column_assertions [1] 5 0 3 ''v0'')"
  apply (simp add: satisfies_column_assertions placement_def str_nat_digit digit_def
      usage_model_def All_less_Suc)
  apply (intro conjI allI)
  apply presburger+
  done

lemma usage_col1: "satisfies usage_model (column_assertions [1, 1] 5 1 3 ''v1'')"
  apply (simp add: satisfies_column_assertions placement_def str_nat_digit digit_def
      usage_model_def All_less_Suc)
  apply (intro conjI allI)
  apply presburger+
  done

lemma usage_col2: "satisfies usage_model (column_assertions [1, 1] 5 2 3 ''v2'')"
  apply (simp add: satisfies_column_assertions placement_def str_nat_digit digit_def
      usage_model_def All_less_Suc)
  apply (intro conjI allI)
  apply presburger+
  done

lemma usage_col3: "satisfies usage_model (column_assertions [1, 1] 5 3 3 ''v3'')"
  apply (simp add: satisfies_column_assertions placement_def str_nat_digit digit_def
      usage_model_def All_less_Suc)
  apply (intro conjI allI)
  apply presburger+
  done

lemma usage_col4: "satisfies usage_model (column_assertions [1] 5 4 3 ''v4'')"
  apply (simp add: satisfies_column_assertions placement_def str_nat_digit digit_def
      usage_model_def All_less_Suc)
  apply (intro conjI allI)
  apply presburger+
  done

lemma usage_model_satisfies:
  "satisfies usage_model (encode [[3], [1, 1], [3]] [[1], [1, 1], [1, 1], [1, 1], [1]])"
  using usage_row0 usage_row1 usage_row2 usage_col0 usage_col1 usage_col2 usage_col3 usage_col4
  by (simp add: satisfies_encode All_less_Suc str_nat_digit digit_def eval_nat_numeral)

lemma hints3_1_mid: "line_hints [a, b, c] = [1] \<Longrightarrow> \<not> a \<Longrightarrow> \<not> c \<Longrightarrow> b"
  by (cases b; simp add: line_hints_def)

lemma hints5_3: "line_hints [a, True, True, True, e] = [3] \<Longrightarrow> \<not> a \<and> \<not> e"
  by (cases a; cases e; simp add: line_hints_def)

lemma hints5_11: "line_hints [a, False, False, False, e] = [1, 1] \<Longrightarrow> a \<and> e"
  by (cases a; cases e; simp add: line_hints_def)

lemma usage_unique:
  assumes s: "satisfies m (encode [[3], [1, 1], [3]] [[1], [1, 1], [1, 1], [1, 1], [1]])"
  shows "extract_grid m 5 3
    = [[False, True, False], [True, False, True], [True, False, True], [True, False, True],
       [False, True, False]]"
proof -
  let ?f = "field_val m"
  have row0: "satisfies m (column_assertions [3] 1 0 5 ''h0'')"
    using encode_row [OF s, of 0] by (simp add: str_nat_digit digit_def eval_nat_numeral)
  have row1: "satisfies m (column_assertions [1, 1] 1 5 5 ''h1'')"
    using encode_row [OF s, of 1] by (simp add: str_nat_digit digit_def eval_nat_numeral)
  have row2: "satisfies m (column_assertions [3] 1 10 5 ''h2'')"
    using encode_row [OF s, of 2] by (simp add: str_nat_digit digit_def eval_nat_numeral)
  have col1: "satisfies m (column_assertions [1, 1] 5 1 3 ''v1'')"
    using encode_col [OF s, of 1] by (simp add: str_nat_digit digit_def eval_nat_numeral)
  have col2: "satisfies m (column_assertions [1, 1] 5 2 3 ''v2'')"
    using encode_col [OF s, of 2] by (simp add: str_nat_digit digit_def eval_nat_numeral)
  have col3: "satisfies m (column_assertions [1, 1] 5 3 3 ''v3'')"
    using encode_col [OF s, of 3] by (simp add: str_nat_digit digit_def eval_nat_numeral)
  have c1: "?f 1 \<and> \<not> ?f 6 \<and> ?f 11"
    using satisfies_hints [OF col1] hints3_11 [of "?f 1" "?f 6" "?f 11"]
    by (simp add: line_cells_3)
  have c2: "?f 2 \<and> \<not> ?f 7 \<and> ?f 12"
    using satisfies_hints [OF col2] hints3_11 [of "?f 2" "?f 7" "?f 12"]
    by (simp add: line_cells_3)
  have c3: "?f 3 \<and> \<not> ?f 8 \<and> ?f 13"
    using satisfies_hints [OF col3] hints3_11 [of "?f 3" "?f 8" "?f 13"]
    by (simp add: line_cells_3)
  have r0: "\<not> ?f 0 \<and> \<not> ?f 4"
    using satisfies_hints [OF row0] hints5_3 [of "?f 0" "?f 4"] c1 c2 c3
    by (simp add: line_cells_5)
  have r2: "\<not> ?f 10 \<and> \<not> ?f 14"
    using satisfies_hints [OF row2] hints5_3 [of "?f 10" "?f 14"] c1 c2 c3
    by (simp add: line_cells_5)
  have r1: "?f 5 \<and> ?f 9"
    using satisfies_hints [OF row1] hints5_11 [of "?f 5" "?f 9"] c1 c2 c3
    by (simp add: line_cells_5)
  show ?thesis
    using c1 c2 c3 r0 r1 r2 by (simp add: extract_grid_def eval_nat_numeral)
qed

section \<open>The concrete scenario\<close>

text \<open>
  Claim C5, as the specification lists the hints (rows \<open>[[3],[1,1],[1]]\<close>, columns
  \<open>[[1,1],[1,1],[1,1],[] or [0],[1]]\<close>): the store has no model at all, so no grid is
  printed for them.
\<close>

theorem spec_scenario_counterexample:
  "\<not> (\<exists>m. satisfies m (encode [[3], [1, 1], [1]] [[1, 1], [1, 1], [1, 1], [], [1]]))
   \<and> \<not> (\<exists>m. satisfies m (encode [[3], [1, 1], [1]] [[1, 1], [1, 1], [1, 1], [0], [1]]))"
  using spec_example_unsat by blast

lemma write_usage_grid:
  "write_answer (Some [[False, True, False], [True, False, True], [True, False, True],
       [True, False, True], [False, True, False]])
     = Inr (''_xxx_'' @ [CHR 0x0A] @ ''x___x'' @ [CHR 0x0A] @ ''_xxx_'' @ [CHR 0x0A])"
  by (simp add: write_answer_def)

text \<open>
  Claim C5, for the hints of the usage documentation (rows \<open>[[3],[1,1],[3]]\<close>, columns
  \<open>[[1],[1,1],[1,1],[1,1],[1]]\<close>): the store has a model, every model gives the one grid,
  and with a solver that decides the store \<^verbatim>\<open>print_answer\<close> writes the three lines
  \<^verbatim>\<open>_xxx_\<close>, \<^verbatim>\<open>x___x\<close>, \<^verbatim>\<open>_xxx_\<close>.
\<close>

theorem usage_example_solved:
  assumes "decided_on slv (encode [[3], [1, 1], [3]] [[1], [1, 1], [1, 1], [1, 1], [1]])"
  shows "fst (solve slv (init_DrawLogic [[3], [1, 1], [3]] [[1], [1, 1], [1, 1], [1, 1], [1]], c))
       = Some [[False, True, False], [True, False, True], [True, False, True],
               [True, False, True], [False, True, False]]
     \<and> fst (print_answer slv
            (init_DrawLogic [[3], [1, 1], [3]] [[1], [1, 1], [1, 1], [1, 1], [1]], c))
       = Inr (''_xxx_'' @ [CHR 0x0A] @ ''x___x'' @ [CHR 0x0A] @ ''_xxx_'' @ [CHR 0x0A])"
proof (cases "slv (encode [[3], [1, 1], [3]] [[1], [1, 1], [1, 1], [1, 1], [1]])")
  case (Sat m)
  with assms have "satisfies m (encode [[3], [1, 1], [3]] [[1], [1, 1], [1, 1], [1, 1], [1]])"
    by (simp add: decided_on_def)
  from usage_unique [OF this] have g: "extract_grid m 5 3
    = [[False, True, False], [True, False, True], [True, False, True], [True, False, True],
       [False, True, False]]" .
  have l: "length [[1], [1, 1], [1, 1], [1, 1], [1 :: int]] = 5" "length [[3], [1, 1], [3 :: int]] = 3"
    by simp_all
  from solve_sat [of slv "[[3], [1, 1], [3]]" "[[1], [1, 1], [1, 1], [1, 1], [1]]" m c, OF Sat]
  show ?thesis
    unfolding print_answer_def l g by (simp only: fst_conv split_conv write_usage_grid)
next
  case Unsat
  with assms usage_model_satisfies show ?thesis by (auto simp: decided_on_def)
next
  case Unknown
  with assms show ?thesis by (simp add: decided_on_def)
qed

theorem usage_example_solved_witness:
  "decided_on (\<lambda>cs. Sat usage_model) (encode [[3], [1, 1], [3]] [[1], [1, 1], [1, 1], [1, 1], [1]])
   \<and> fst (print_answer (\<lambda>cs. Sat usage_model)
            (init_DrawLogic [[3], [1, 1], [3]] [[1], [1, 1], [1, 1], [1, 1], [1]], 0))
       = Inr (''_xxx_'' @ [CHR 0x0A] @ ''x___x'' @ [CHR 0x0A] @ ''_xxx_'' @ [CHR 0x0A])"
proof -
  have d: "decided_on (\<lambda>cs. Sat usage_model)
      (encode [[3], [1, 1], [3]] [[1], [1, 1], [1, 1], [1, 1], [1]])"
    using usage_model_satisfies by (simp add: decided_on_def)
  from usage_example_solved [OF d, of 0] d show ?thesis by blast
qed

section \<open>The round trip from a grid\<close>

lemma clash_rect: "rect 21 12 clash_grid"
  by (simp add: rect_def clash_grid_def list_all_iff)

lemma clash_lengths:
  "length (row_hints 12 clash_grid) = 12" "length (col_hints clash_grid) = 21"
  by (simp_all add: row_hints_def col_hints_def clash_grid_def)

lemma clash_row1: "row_hints 12 clash_grid ! 1 = [1, 1, 1, 1, 1, 1, 1, 1, 1, 1, 1]"
  by code_simp

lemma clash_row11: "row_hints 12 clash_grid ! 11 = [1, 1]"
  by code_simp

lemma str_nat_10: "str_nat 10 = ''10''" "str_nat 11 = ''11''"
  by (simp_all add: str_nat.simps digit_def)

lemma chain_lower:
  fixes io :: "nat \<Rightarrow> int"
  assumes "0 \<le> io 0" and "\<forall>i < n. io i + 1 < io (i + 1)"
  shows "k \<le> n \<Longrightarrow> 2 * int k \<le> io k"
proof (induction k)
  case 0
  then show ?case using assms(1) by simp
next
  case (Suc k)
  then have "2 * int k \<le> io k" "k < n" by simp_all
  with assms(2) have "io k + 1 < io (k + 1)" by blast
  with \<open>2 * int k \<le> io k\<close> show ?case by simp
qed

lemma clash_unsat:
  "\<not> satisfies m (encode (row_hints 12 clash_grid) (col_hints clash_grid))"
proof
  assume s: "satisfies m (encode (row_hints 12 clash_grid) (col_hints clash_grid))"
  let ?a = "\<lambda>i. int_val m (''h1'' @ str_nat i)"
  let ?b = "\<lambda>i. int_val m (''h11'' @ str_nat i)"
  have "satisfies m (column_assertions [1, 1, 1, 1, 1, 1, 1, 1, 1, 1, 1] 1 21 21 ''h1'')"
    using encode_row [OF s, of 1] by (simp add: clash_lengths clash_row1 [unfolded One_nat_def] str_nat_digit digit_def)
  then have p1: "placement (field_val m) ?a [1, 1, 1, 1, 1, 1, 1, 1, 1, 1, 1] 1 21 21"
    by (simp add: satisfies_column_assertions)
  have "satisfies m (column_assertions [1, 1] 1 231 21 ''h11'')"
    using encode_row [OF s, of 11] by (simp add: clash_lengths clash_row11 str_nat_10)
  then have p2: "placement (field_val m) ?b [1, 1] 1 231 21"
    by (simp add: satisfies_column_assertions)
  from p1 have "0 \<le> ?a 0" and "\<forall>i < 10. ?a i + [1, 1, 1, 1, 1, 1, 1, 1, 1, 1, 1] ! i < ?a (i + 1)"
    by (simp_all add: placement_def)
  moreover have "\<And>i. i < 10 \<Longrightarrow> [1, 1, 1, 1, 1, 1, 1, 1, 1, 1, 1 :: int] ! i = 1"
    by (simp add: nth_Cons' )
  ultimately have "0 \<le> ?a 0" and "\<forall>i < 10. ?a i + 1 < ?a (i + 1)" by simp_all
  from chain_lower [OF this, of 10] have "20 \<le> ?a 10" by simp
  then have lo: "20 \<le> int_val m ''h110''" by (simp add: str_nat_10)
  from p2 have "?b 0 + 1 < ?b 1" "?b 1 + 1 \<le> 21"
    by (simp_all add: placement_def)
  then have "?b 0 < 19" by simp
  then have "int_val m ''h110'' < 19" by (simp add: str_nat_digit digit_def)
  with lo show False by simp
qed

lemma line_hints_all_False: "line_hints (replicate n False) = []"
  using runs_acc_False [of n "[]"] by (simp add: line_hints_def)

lemma satisfies_line_hints:
  assumes sat: "satisfies m (column_assertions numbers skip base sz prefix)"
    and pos: "\<forall>x \<in> set numbers. 0 < x"
  shows "map int (line_hints (line_cells m skip base sz)) = numbers"
proof (cases "numbers = []")
  case True
  with sat have "line_cells m skip base sz = replicate sz False" by (simp add: empty_sat)
  then show ?thesis using True by (simp add: line_hints_all_False)
next
  case False
  from line_cells_sound(2) [OF False pos sat]
  have "map int (line_hints (line_cells m skip base sz)) = map (\<lambda>x. int (nat x)) numbers"
    by simp
  also have "\<dots> = numbers" using pos by (intro map_idI) auto
  finally show ?thesis .
qed

lemma round_trip_sound:
  assumes sat: "satisfies m (encode H V)"
    and posH: "\<forall>hs \<in> set H. \<forall>x \<in> set hs. 0 < x"
    and posV: "\<forall>hs \<in> set V. \<forall>x \<in> set hs. 0 < x"
  shows "row_hints (length H) (extract_grid m (length V) (length H)) = H"
    and "col_hints (extract_grid m (length V) (length H)) = V"
proof -
  let ?q = "extract_grid m (length V) (length H)"
  show "row_hints (length H) ?q = H"
  proof (rule nth_equalityI)
    show "length (row_hints (length H) ?q) = length H" by (simp add: row_hints_def)
    fix j assume "j < length (row_hints (length H) ?q)"
    then have j: "j < length H" by (simp add: row_hints_def)
    then have "\<forall>x \<in> set (H ! j). 0 < x" using posH nth_mem by blast
    from satisfies_line_hints [OF encode_row [OF sat j] this]
    show "row_hints (length H) ?q ! j = H ! j"
      using j row_line [of j "length H" m "length V"] by (simp add: row_hints_def)
  qed
  show "col_hints ?q = V"
  proof (rule nth_equalityI)
    show "length (col_hints ?q) = length V" by (simp add: col_hints_def)
    fix i assume "i < length (col_hints ?q)"
    then have i: "i < length V" by (simp add: col_hints_def)
    then have "\<forall>x \<in> set (V ! i). 0 < x" using posV nth_mem by blast
    from satisfies_line_hints [OF encode_col [OF sat i] this]
    show "col_hints ?q ! i = V ! i"
      using i col_line [of i "length V" m "length H"] by (simp add: col_hints_def)
  qed
qed

text \<open>
  Claim C2, at a grid of 21 columns and 12 rows. The position variable of the eleventh run
  of row 1 and that of the first run of row 11 are both named \<^verbatim>\<open>h110\<close>, hence one
  variable: row 1 needs it to be 20, row 11 needs it to be below 19. The store built from
  the hints of the grid has no model, and \<^verbatim>\<open>solve\<close> returns \<^verbatim>\<open>None\<close> with every sound
  solver, although the grid itself has these hints.
\<close>

theorem round_trip_name_clash:
  assumes "sound_on slv (encode (row_hints 12 clash_grid) (col_hints clash_grid))"
  shows "rect 21 12 clash_grid
     \<and> fst (solve slv (init_DrawLogic (row_hints 12 clash_grid) (col_hints clash_grid), c)) = None"
proof -
  have "solve_private slv (init_DrawLogic (row_hints 12 clash_grid) (col_hints clash_grid)
          \<lparr>solved := True\<rparr>) = None"
    using assms clash_unsat
    by (cases "slv (encode (row_hints 12 clash_grid) (col_hints clash_grid))")
      (auto simp: solve_private_def init_DrawLogic_def sound_on_def)
  then show ?thesis
    using clash_rect by (simp add: solve_def init_DrawLogic_def Let_def)
qed

theorem round_trip_name_clash_witness:
  "sound_on (\<lambda>cs. Unsat) (encode (row_hints 12 clash_grid) (col_hints clash_grid))
   \<and> fst (solve (\<lambda>cs. Unsat)
        (init_DrawLogic (row_hints 12 clash_grid) (col_hints clash_grid), 0)) = None"
proof -
  have s: "sound_on (\<lambda>cs. Unsat) (encode (row_hints 12 clash_grid) (col_hints clash_grid))"
    by (simp add: sound_on_def)
  from round_trip_name_clash [OF s, of 0] s show ?thesis by blast
qed

text \<open>
  Claim C7, at the puzzle of the hints of the grid above (21 columns, 12 rows). The puzzle
  is solvable, the grid itself has these hints, but its store has no model, so with every
  sound solver \<^verbatim>\<open>print_answer\<close> writes \<^verbatim>\<open>No solutions!\<close> instead of 12 lines of 21
  characters.
\<close>

theorem print_answer_name_clash:
  assumes "sound_on slv (encode (row_hints 12 clash_grid) (col_hints clash_grid))"
  shows "rect 21 12 clash_grid
     \<and> length (col_hints clash_grid) = 21 \<and> length (row_hints 12 clash_grid) = 12
     \<and> fst (print_answer slv
            (init_DrawLogic (row_hints 12 clash_grid) (col_hints clash_grid), c))
         = Inr (''No solutions!'' @ [CHR 0x0A])"
proof -
  have "solve_private slv (init_DrawLogic (row_hints 12 clash_grid) (col_hints clash_grid)
          \<lparr>solved := True\<rparr>) = None"
    using assms clash_unsat
    by (cases "slv (encode (row_hints 12 clash_grid) (col_hints clash_grid))")
      (auto simp: solve_private_def init_DrawLogic_def sound_on_def)
  then have "fst (solve slv (init_DrawLogic (row_hints 12 clash_grid) (col_hints clash_grid), c))
      = None"
    by (simp add: solve_def init_DrawLogic_def Let_def)
  then have "fst (print_answer slv
            (init_DrawLogic (row_hints 12 clash_grid) (col_hints clash_grid), c))
         = Inr (''No solutions!'' @ [CHR 0x0A])"
    by (simp add: print_answer_def write_answer_def split_beta)
  with clash_rect clash_lengths show ?thesis by blast
qed

theorem print_answer_name_clash_witness:
  "sound_on (\<lambda>cs. Unsat) (encode (row_hints 12 clash_grid) (col_hints clash_grid))
   \<and> fst (print_answer (\<lambda>cs. Unsat)
        (init_DrawLogic (row_hints 12 clash_grid) (col_hints clash_grid), 0))
       = Inr (''No solutions!'' @ [CHR 0x0A])"
proof -
  have s: "sound_on (\<lambda>cs. Unsat) (encode (row_hints 12 clash_grid) (col_hints clash_grid))"
    by (simp add: sound_on_def)
  from print_answer_name_clash [OF s, of 0] s show ?thesis by blast
qed

section \<open>Rows and columns constrain one grid\<close>

lemma cell_row: 
  "i < width \<Longrightarrow> j < height \<Longrightarrow>
     beval (field_val m) env (cell 1 (j * width) (IntVal (int i)))
       = extract_grid m width height ! i ! j"
  by (simp add: cell_def extract_grid_def)

lemma cell_col:
  "i < width \<Longrightarrow> j < height \<Longrightarrow>
     beval (field_val m) env (cell width i (IntVal (int j)))
       = extract_grid m width height ! i ! j"
  by (simp add: cell_def extract_grid_def algebra_simps)

lemma empty_row_addresses:
  "column_assertions [] 1 (j * width) width prefix
     = map (\<lambda>i. Not (Select (IntVal (int (j * width + i))))) [0..<width]"
  by (simp add: column_assertions_def)

lemma empty_col_addresses:
  "column_assertions [] width i height prefix
     = map (\<lambda>j. Not (Select (IntVal (int (j * width + i))))) [0..<height]"
  by (simp add: column_assertions_def algebra_simps)

lemma satisfies_line_render:
  assumes sat: "satisfies m (column_assertions numbers skip base sz prefix)"
    and pos: "\<forall>x \<in> set numbers. 0 < x"
  shows "line_cells m skip base sz
     = render 0 (zip (map nat (offsets m prefix (length numbers))) (map nat numbers)) sz"
proof (cases "numbers = []")
  case True
  with sat have "line_cells m skip base sz = replicate sz False" by (simp add: empty_sat)
  then show ?thesis using True by simp
next
  case False
  from line_cells_sound(1) [OF False pos sat] show ?thesis .
qed

lemma store_renders_grid:
  assumes sat: "satisfies m (encode h v)"
    and posH: "\<forall>hs \<in> set h. \<forall>x \<in> set hs. 0 < x"
    and posV: "\<forall>hs \<in> set v. \<forall>x \<in> set hs. 0 < x"
  shows "list_all (\<lambda>j. map (\<lambda>col. col ! j) (extract_grid m (length v) (length h))
            = render 0 (zip (map nat (offsets m (''h'' @ str_nat j) (length (h ! j))))
                            (map nat (h ! j))) (length v)) [0..<length h]"
    and "list_all (\<lambda>i. extract_grid m (length v) (length h) ! i
            = render 0 (zip (map nat (offsets m (''v'' @ str_nat i) (length (v ! i))))
                            (map nat (v ! i))) (length h)) [0..<length v]"
proof -
  have "\<And>j. j < length h \<Longrightarrow> map (\<lambda>col. col ! j) (extract_grid m (length v) (length h))
            = render 0 (zip (map nat (offsets m (''h'' @ str_nat j) (length (h ! j))))
                            (map nat (h ! j))) (length v)"
  proof -
    fix j assume j: "j < length h"
    then have "\<forall>x \<in> set (h ! j). 0 < x" using posH nth_mem by blast
    from satisfies_line_render [OF encode_row [OF sat j] this] row_line [OF j, of m "length v"]
    show "map (\<lambda>col. col ! j) (extract_grid m (length v) (length h))
            = render 0 (zip (map nat (offsets m (''h'' @ str_nat j) (length (h ! j))))
                            (map nat (h ! j))) (length v)"
      by simp
  qed
  then show "list_all (\<lambda>j. map (\<lambda>col. col ! j) (extract_grid m (length v) (length h))
            = render 0 (zip (map nat (offsets m (''h'' @ str_nat j) (length (h ! j))))
                            (map nat (h ! j))) (length v)) [0..<length h]"
    by (simp add: list_all_iff)
  have "\<And>i. i < length v \<Longrightarrow> extract_grid m (length v) (length h) ! i
            = render 0 (zip (map nat (offsets m (''v'' @ str_nat i) (length (v ! i))))
                            (map nat (v ! i))) (length h)"
  proof -
    fix i assume i: "i < length v"
    then have "\<forall>x \<in> set (v ! i). 0 < x" using posV nth_mem by blast
    from satisfies_line_render [OF encode_col [OF sat i] this] col_line [OF i, of m "length h"]
    show "extract_grid m (length v) (length h) ! i
            = render 0 (zip (map nat (offsets m (''v'' @ str_nat i) (length (v ! i))))
                            (map nat (v ! i))) (length h)"
      by simp
  qed
  then show "list_all (\<lambda>i. extract_grid m (length v) (length h) ! i
            = render 0 (zip (map nat (offsets m (''v'' @ str_nat i) (length (v ! i))))
                            (map nat (v ! i))) (length h)) [0..<length v]"
    by (simp add: list_all_iff)
qed

text \<open>
  Claim C3. The store \<^verbatim>\<open>_solve\<close> builds holds the assertions of one call of the line
  encoder for each horizontal hint line \<open>j\<close> (skip 1, base \<open>j * width\<close>, length \<open>width\<close>) and
  of one call for each vertical hint line \<open>i\<close> (skip \<open>width\<close>, base \<open>i\<close>, length \<open>height\<close>),
  and nothing else. The cell term of the encoder at position \<open>i\<close> of row \<open>j\<close> and at position
  \<open>j\<close> of column \<open>i\<close> reads the array where the returned grid reads its cell \<open>(i, j)\<close>,
  at index \<open>j * width + i\<close>, and so do the assertions of an empty hint line. In every model
  of the store (hints positive) row \<open>j\<close> of the returned grid is the rendering of the runs of
  \<open>h ! j\<close> at the values of the position variables of row \<open>j\<close>, and column \<open>i\<close> that of the
  runs of \<open>v ! i\<close> at those of column \<open>i\<close>: each cell is constrained by its row and by its
  column, and the grid has the hints of both.
\<close>

theorem solve_encodes_every_line:
  "encode h v =
     concat (map (\<lambda>j. column_assertions (h ! j) 1 (j * length v) (length v) (''h'' @ str_nat j))
               [0..<length h])
     @ concat (map (\<lambda>i. column_assertions (v ! i) (length v) i (length h) (''v'' @ str_nat i))
               [0..<length v])
   \<and> list_all (\<lambda>j. list_all (\<lambda>i.
          beval (field_val m) env (cell 1 (j * length v) (IntVal (int i)))
            = extract_grid m (length v) (length h) ! i ! j
          \<and> beval (field_val m) env (cell (length v) i (IntVal (int j)))
            = extract_grid m (length v) (length h) ! i ! j) [0..<length v])
        [0..<length h]
   \<and> column_assertions [] 1 (j * length v) (length v) p
       = map (\<lambda>i. Not (Select (IntVal (int (j * length v + i))))) [0..<length v]
   \<and> column_assertions [] (length v) i (length h) p
       = map (\<lambda>j. Not (Select (IntVal (int (j * length v + i))))) [0..<length h]
   \<and> list_all (\<lambda>j. line_cells m 1 (j * length v) (length v)
                     = map (\<lambda>col. col ! j) (extract_grid m (length v) (length h)))
        [0..<length h]
   \<and> list_all (\<lambda>i. line_cells m (length v) i (length h)
                     = extract_grid m (length v) (length h) ! i)
        [0..<length v]
   \<and> (satisfies m (encode h v)
        \<and> list_all (list_all (\<lambda>x. 0 < x)) h \<and> list_all (list_all (\<lambda>x. 0 < x)) v
      \<longrightarrow> list_all (\<lambda>j. map (\<lambda>col. col ! j) (extract_grid m (length v) (length h))
            = render 0 (zip (map nat (offsets m (''h'' @ str_nat j) (length (h ! j))))
                            (map nat (h ! j))) (length v)) [0..<length h]
          \<and> list_all (\<lambda>i. extract_grid m (length v) (length h) ! i
            = render 0 (zip (map nat (offsets m (''v'' @ str_nat i) (length (v ! i))))
                            (map nat (v ! i))) (length h)) [0..<length v]
          \<and> row_hints (length h) (extract_grid m (length v) (length h)) = h
          \<and> col_hints (extract_grid m (length v) (length h)) = v)"
proof -
  have cells: "list_all (\<lambda>j. list_all (\<lambda>i.
          beval (field_val m) env (cell 1 (j * length v) (IntVal (int i)))
            = extract_grid m (length v) (length h) ! i ! j
          \<and> beval (field_val m) env (cell (length v) i (IntVal (int j)))
            = extract_grid m (length v) (length h) ! i ! j) [0..<length v])
        [0..<length h]"
    using cell_row [of _ "length v" _ "length h" m env] cell_col [of _ "length v" _ "length h" m env]
    by (simp add: list_all_iff)
  have rows: "list_all (\<lambda>j. line_cells m 1 (j * length v) (length v)
                     = map (\<lambda>col. col ! j) (extract_grid m (length v) (length h)))
        [0..<length h]"
    using row_line [of _ "length h" m "length v"] by (simp add: list_all_iff)
  have cols: "list_all (\<lambda>i. line_cells m (length v) i (length h)
                     = extract_grid m (length v) (length h) ! i)
        [0..<length v]"
    using col_line [of _ "length v" m "length h"] by (simp add: list_all_iff)
  have joint: "satisfies m (encode h v)
        \<and> list_all (list_all (\<lambda>x. 0 < x)) h \<and> list_all (list_all (\<lambda>x. 0 < x)) v
      \<longrightarrow> list_all (\<lambda>j. map (\<lambda>col. col ! j) (extract_grid m (length v) (length h))
            = render 0 (zip (map nat (offsets m (''h'' @ str_nat j) (length (h ! j))))
                            (map nat (h ! j))) (length v)) [0..<length h]
          \<and> list_all (\<lambda>i. extract_grid m (length v) (length h) ! i
            = render 0 (zip (map nat (offsets m (''v'' @ str_nat i) (length (v ! i))))
                            (map nat (v ! i))) (length h)) [0..<length v]
          \<and> row_hints (length h) (extract_grid m (length v) (length h)) = h
          \<and> col_hints (extract_grid m (length v) (length h)) = v"
  proof (intro impI)
    assume a: "satisfies m (encode h v)
        \<and> list_all (list_all (\<lambda>x. 0 < x)) h \<and> list_all (list_all (\<lambda>x. 0 < x)) v"
    then have sat: "satisfies m (encode h v)"
      and posH: "\<forall>hs \<in> set h. \<forall>x \<in> set hs. 0 < x"
      and posV: "\<forall>hs \<in> set v. \<forall>x \<in> set hs. 0 < x"
      by (simp_all add: list_all_iff)
    from store_renders_grid [OF sat posH posV] round_trip_sound [OF sat posH posV]
    show "list_all (\<lambda>j. map (\<lambda>col. col ! j) (extract_grid m (length v) (length h))
            = render 0 (zip (map nat (offsets m (''h'' @ str_nat j) (length (h ! j))))
                            (map nat (h ! j))) (length v)) [0..<length h]
          \<and> list_all (\<lambda>i. extract_grid m (length v) (length h) ! i
            = render 0 (zip (map nat (offsets m (''v'' @ str_nat i) (length (v ! i))))
                            (map nat (v ! i))) (length h)) [0..<length v]
          \<and> row_hints (length h) (extract_grid m (length v) (length h)) = h
          \<and> col_hints (extract_grid m (length v) (length h)) = v"
      by blast
  qed
  from encode_eq [of h v] cells rows cols joint
    empty_row_addresses [of j "length v" p] empty_col_addresses [of "length v" i "length h" p]
  show ?thesis by blast
qed

theorem solve_encodes_every_line_witness:
  "satisfies usage_model (encode [[3], [1, 1], [3]] [[1], [1, 1], [1, 1], [1, 1], [1]])
   \<and> list_all (list_all (\<lambda>x. 0 < x)) [[3], [1, 1], [3 :: int]]
   \<and> list_all (list_all (\<lambda>x. 0 < x)) [[1], [1, 1], [1, 1], [1, 1], [1 :: int]]
   \<and> row_hints 3 (extract_grid usage_model 5 3) = [[3], [1, 1], [3]]
   \<and> col_hints (extract_grid usage_model 5 3) = [[1], [1, 1], [1, 1], [1, 1], [1]]"
proof -
  let ?h = "[[3], [1, 1], [3 :: int]]"
  let ?v = "[[1], [1, 1], [1, 1], [1, 1], [1 :: int]]"
  have l: "length ?v = 5" "length ?h = 3" by simp_all
  have a: "satisfies usage_model (encode ?h ?v)" by (rule usage_model_satisfies)
  have b: "list_all (list_all (\<lambda>x. 0 < x)) ?h" by simp
  have c: "list_all (list_all (\<lambda>x. 0 < x)) ?v" by simp
  from solve_encodes_every_line [of ?h ?v usage_model "\<lambda>s. 0" 0 "''h0''" 0]
  have "satisfies usage_model (encode ?h ?v)
        \<and> list_all (list_all (\<lambda>x. 0 < x)) ?h \<and> list_all (list_all (\<lambda>x. 0 < x)) ?v
      \<longrightarrow> row_hints (length ?h) (extract_grid usage_model (length ?v) (length ?h)) = ?h
          \<and> col_hints (extract_grid usage_model (length ?v) (length ?h)) = ?v"
    by (elim conjE) (intro impI, blast)
  with a b c have "row_hints (length ?h) (extract_grid usage_model (length ?v) (length ?h)) = ?h
          \<and> col_hints (extract_grid usage_model (length ?v) (length ?h)) = ?v"
    by blast
  then have "row_hints 3 (extract_grid usage_model 5 3) = ?h
          \<and> col_hints (extract_grid usage_model 5 3) = ?v"
    unfolding l .
  with a b c show ?thesis by blast
qed

end
